theory Spec2Isabelle
  imports Main "HOL-Library.Product_Lexorder"
begin

section \<open>Game-tree search agents of 02-GameTrees/agents.py\<close>

subsection \<open>The State collaborator\<close>

text \<open>
  agents.py imports the class State from a module that is not part of the sources at
  hand. The search code only calls six of its members, so the class is a parameter of
  the model: a record holding one function per member. The constants State.RED and
  State.YEL name the two players; a status is State.RED, State.YEL (that player has
  won), State.DRAW, or Python's None while the game is in progress.
\<close>

datatype player = RED | YEL

datatype status = Win player | DRAW

record 'st State =
  get_state_status :: "'st \<Rightarrow> status option"
  get_checkers :: "'st \<Rightarrow> player \<Rightarrow> int"
  get_possible_columns :: "'st \<Rightarrow> int list"
  generate_successor_state :: "'st \<Rightarrow> int \<Rightarrow> 'st"
  get_next_on_move :: "'st \<Rightarrow> player"
  win_masks :: "int list"

subsection \<open>Module globals\<close>

text \<open>
  max\_depth is an int, or math.inf when the depth argument is 0. The three globals
  are None when the module is loaded and are assigned together by get\_chosen\_column;
  the record holds their values once assigned.
\<close>

datatype depth_bound = Bound int | Unbounded

record globals =
  max_depth :: depth_bound
  max_player :: player
  min_player :: player

subsection \<open>Scores: Python ints together with -math.inf and math.inf\<close>

datatype score = MInf | Fin int | PInf

fun score_le :: "score \<Rightarrow> score \<Rightarrow> bool" where
  "score_le MInf _ = True"
| "score_le (Fin a) MInf = False"
| "score_le (Fin a) (Fin b) = (a \<le> b)"
| "score_le (Fin a) PInf = True"
| "score_le PInf MInf = False"
| "score_le PInf (Fin b) = False"
| "score_le PInf PInf = True"

instantiation score :: linorder
begin

definition less_eq_score :: "score \<Rightarrow> score \<Rightarrow> bool" where
  "less_eq_score a b = score_le a b"

definition less_score :: "score \<Rightarrow> score \<Rightarrow> bool" where
  "less_score a b = (score_le a b \<and> \<not> score_le b a)"

instance
proof
  fix x y z :: score
  show "(x < y) = (x \<le> y \<and> \<not> y \<le> x)"
    by (simp add: less_score_def less_eq_score_def)
  show "x \<le> x"
    by (cases x) (simp_all add: less_eq_score_def)
  show "x \<le> y \<Longrightarrow> y \<le> z \<Longrightarrow> x \<le> z"
    by (cases x; cases y; cases z) (simp_all add: less_eq_score_def)
  show "x \<le> y \<Longrightarrow> y \<le> x \<Longrightarrow> x = y"
    by (cases x; cases y) (simp_all add: less_eq_score_def)
  show "x \<le> y \<or> y \<le> x"
    by (cases x; cases y) (auto simp add: less_eq_score_def)
qed

end

text \<open>Unary minus and \<open>x - 1\<close> on scores, as Python computes them with infinities.\<close>

fun neg :: "score \<Rightarrow> score" where
  "neg MInf = PInf"
| "neg (Fin a) = Fin (- a)"
| "neg PInf = MInf"

fun minus_one :: "score \<Rightarrow> score" where
  "minus_one MInf = MInf"
| "minus_one (Fin a) = Fin (a - 1)"
| "minus_one PInf = PInf"

subsection \<open>Nodes, errors and results\<close>

record 'st Node =
  state :: 'st
  col :: int
  chosen_succ :: "int option"

datatype error = IndexError

text \<open>
  A call either returns, raises, or is still running when the recursion budget of the
  model is used up.
\<close>

datatype 'a result = OutOfFuel | Raise error | Return 'a

subsection \<open>The evaluator\<close>

definition count_tokens :: "int \<Rightarrow> int" where
  "count_tokens checkers =
     fst (fold (\<lambda>i (cnt, mask). (if and checkers mask \<noteq> 0 then cnt + 1 else cnt, push_bit 1 mask))
            [0..<42] (0, 1))"

definition node_evaluation :: "'st State \<Rightarrow> globals \<Rightarrow> 'st \<Rightarrow> int" where
  "node_evaluation S gl st =
     (let status = get_state_status S st in
      if status = Some (Win (max_player gl)) then
        1000 - count_tokens (get_checkers S st (max_player gl))
      else if status = Some (Win (min_player gl)) then
        - 1000 + count_tokens (get_checkers S st (min_player gl))
      else if status = Some DRAW then 0
      else
        let max_player_tokens = get_checkers S st (max_player gl);
            min_player_tokens = get_checkers S st (min_player gl);
            (max_wins_cnt, max_losses_cnt) =
              fold (\<lambda>mask (w, l).
                      (if and mask min_player_tokens = 0 then w + 1 else w,
                       if and mask max_player_tokens = 0 then l + 1 else l))
                   (win_masks S) (0, 0)
        in max_wins_cnt - max_losses_cnt)"

text \<open>\<open>arr[column]\<close>: Python accepts the indices -7 .. 6 and raises IndexError otherwise.\<close>

definition col_priority :: "int \<Rightarrow> int option" where
  "col_priority column =
     (let arr = [1, 3, 5, 6, 4, 2, 0] in
      if 0 \<le> column \<and> column < 7 then Some (arr ! nat column)
      else if - 7 \<le> column \<and> column < 0 then Some (arr ! nat (column + 7))
      else None)"

definition is_terminal_node :: "'st State \<Rightarrow> 'st \<Rightarrow> bool" where
  "is_terminal_node S st = (get_state_status S st \<noteq> None)"

subsection \<open>Move ordering\<close>

text \<open>
  \<open>sorted(columns, key=..., reverse=True)\<close>: Python computes the key of every column
  once, in list order (so an IndexError of col\_priority aborts the call before anything
  is sorted), then sorts the columns in descending key order, columns with equal keys
  keeping their original order.
\<close>

definition sort_key_of :: "'st State \<Rightarrow> globals \<Rightarrow> 'st \<Rightarrow> int \<Rightarrow> (int \<times> int) option" where
  "sort_key_of S gl st column =
     (let ev = node_evaluation S gl (generate_successor_state S st column) in
      case col_priority column of None \<Rightarrow> None | Some p \<Rightarrow> Some (ev, p))"

definition sorted_reverse :: "('k::linorder \<times> 'a) list \<Rightarrow> 'a list" where
  "sorted_reverse keyed = map snd (rev (sort_key fst (rev keyed)))"

definition sorted_cols :: "'st State \<Rightarrow> globals \<Rightarrow> 'st \<Rightarrow> int list result" where
  "sorted_cols S gl st =
     (let columns = get_possible_columns S st;
          keys = map (sort_key_of S gl st) columns
      in if list_all (\<lambda>k. k \<noteq> None) keys
         then Return (sorted_reverse (zip (map the keys) columns))
         else Raise IndexError)"

subsection \<open>Minimax with alpha-beta pruning\<close>

text \<open>
  The two \<open>for\<close> loops of minimax\_ab. \<open>search column alpha beta\<close> is the recursive call on
  the child reached through \<open>column\<close>; the loop state is score, alpha or beta, and the
  node's chosen\_succ field.
\<close>

fun max_loop :: "(int \<Rightarrow> score \<Rightarrow> score \<Rightarrow> score result) \<Rightarrow> int list \<Rightarrow>
                 score \<Rightarrow> score \<Rightarrow> score \<Rightarrow> int option \<Rightarrow> (score \<times> int option) result" where
  "max_loop search [] score alpha beta chosen = Return (score, chosen)"
| "max_loop search (column # cols) score alpha beta chosen =
     (case search column alpha beta of
        OutOfFuel \<Rightarrow> OutOfFuel
      | Raise e \<Rightarrow> Raise e
      | Return child_score \<Rightarrow>
          let (score', alpha', chosen') =
                (if child_score > score then (child_score, child_score, Some column)
                 else (score, alpha, chosen))
          in if alpha' \<ge> beta then Return (score', chosen')
             else max_loop search cols score' alpha' beta chosen')"

fun min_loop :: "(int \<Rightarrow> score \<Rightarrow> score \<Rightarrow> score result) \<Rightarrow> int list \<Rightarrow>
                 score \<Rightarrow> score \<Rightarrow> score \<Rightarrow> int option \<Rightarrow> (score \<times> int option) result" where
  "min_loop search [] score alpha beta chosen = Return (score, chosen)"
| "min_loop search (column # cols) score alpha beta chosen =
     (case search column alpha beta of
        OutOfFuel \<Rightarrow> OutOfFuel
      | Raise e \<Rightarrow> Raise e
      | Return child_score \<Rightarrow>
          let (score', beta', chosen') =
                (if child_score < score then (child_score, child_score, Some column)
                 else (score, beta, chosen))
          in if alpha \<ge> beta' then Return (score', chosen')
             else min_loop search cols score' alpha beta' chosen')"

definition returned_score :: "(score \<times> 'a) result \<Rightarrow> score result" where
  "returned_score r = (case r of OutOfFuel \<Rightarrow> OutOfFuel | Raise e \<Rightarrow> Raise e
                       | Return (v, _) \<Rightarrow> Return v)"

definition store_chosen :: "'st Node \<Rightarrow> (score \<times> int option) result \<Rightarrow> (score \<times> 'st Node) result" where
  "store_chosen node r = (case r of OutOfFuel \<Rightarrow> OutOfFuel | Raise e \<Rightarrow> Raise e
                          | Return (v, ch) \<Rightarrow> Return (v, node\<lparr>chosen_succ := ch\<rparr>))"

text \<open>
  minimax\_ab returns the score together with the node as the call leaves it (the call
  assigns node.chosen\_succ). The first argument after the globals bounds the depth of
  the recursion.
\<close>

primrec minimax_ab :: "'st State \<Rightarrow> globals \<Rightarrow> nat \<Rightarrow> 'st Node \<Rightarrow> player \<Rightarrow> score \<Rightarrow> score \<Rightarrow> int \<Rightarrow>
                       (score \<times> 'st Node) result" where
  "minimax_ab S gl 0 node player alpha beta depth = OutOfFuel"
| "minimax_ab S gl (Suc fuel) node player alpha beta depth =
     (if is_terminal_node S (state node) \<or> Bound depth = max_depth gl then
        Return (Fin (node_evaluation S gl (state node)), node)
      else
        case sorted_cols S gl (state node) of
          OutOfFuel \<Rightarrow> OutOfFuel
        | Raise e \<Rightarrow> Raise e
        | Return cols \<Rightarrow>
            if player = max_player gl then
              store_chosen node
                (max_loop
                   (\<lambda>column a b. returned_score
                      (minimax_ab S gl fuel
                         \<lparr>state = generate_successor_state S (state node) column, col = column, chosen_succ = None\<rparr>
                         (min_player gl) a b (depth + 1)))
                   cols MInf alpha beta (chosen_succ node))
            else
              store_chosen node
                (min_loop
                   (\<lambda>column a b. returned_score
                      (minimax_ab S gl fuel
                         \<lparr>state = generate_successor_state S (state node) column, col = column, chosen_succ = None\<rparr>
                         (max_player gl) a b (depth + 1)))
                   cols PInf alpha beta (chosen_succ node)))"

subsection \<open>NegaScout\<close>

text \<open>
  One iteration of the loop body up to and including the possible re-search: the
  child score and the node's chosen\_succ afterwards.
\<close>

definition negascout_child ::
    "(int \<Rightarrow> score \<Rightarrow> score \<Rightarrow> score result) \<Rightarrow> int \<Rightarrow> int \<Rightarrow> score \<Rightarrow> score \<Rightarrow> int option \<Rightarrow>
     (score \<times> int option) result" where
  "negascout_child search first column alpha beta chosen =
     (if column = first then
        (case search column (neg beta) (neg alpha) of
           OutOfFuel \<Rightarrow> OutOfFuel
         | Raise e \<Rightarrow> Raise e
         | Return r \<Rightarrow> Return (neg r, Some column))
      else
        (case search column (minus_one (neg alpha)) (neg alpha) of
           OutOfFuel \<Rightarrow> OutOfFuel
         | Raise e \<Rightarrow> Raise e
         | Return r \<Rightarrow>
             let child_score = neg r in
             if alpha < child_score \<and> child_score < beta then
               (case search column (neg beta) (neg alpha) of
                  OutOfFuel \<Rightarrow> OutOfFuel
                | Raise e \<Rightarrow> Raise e
                | Return r' \<Rightarrow> Return (neg r', Some column))
             else Return (child_score, chosen)))"

fun negascout_loop :: "(int \<Rightarrow> score \<Rightarrow> score \<Rightarrow> score result) \<Rightarrow> int \<Rightarrow> int list \<Rightarrow>
                       score \<Rightarrow> score \<Rightarrow> score \<Rightarrow> int option \<Rightarrow> (score \<times> int option) result" where
  "negascout_loop search first [] score alpha beta chosen = Return (score, chosen)"
| "negascout_loop search first (column # cols) score alpha beta chosen =
     (case negascout_child search first column alpha beta chosen of
        OutOfFuel \<Rightarrow> OutOfFuel
      | Raise e \<Rightarrow> Raise e
      | Return (child_score, chosen') \<Rightarrow>
          let score' = max score child_score;
              alpha' = max alpha score'
          in if alpha' \<ge> beta then Return (score', chosen')
             else negascout_loop search first cols score' alpha' beta chosen')"

primrec negascout :: "'st State \<Rightarrow> globals \<Rightarrow> nat \<Rightarrow> 'st Node \<Rightarrow> player \<Rightarrow> score \<Rightarrow> score \<Rightarrow> int \<Rightarrow>
                      (score \<times> 'st Node) result" where
  "negascout S gl 0 node player alpha beta depth = OutOfFuel"
| "negascout S gl (Suc fuel) node player alpha beta depth =
     (if is_terminal_node S (state node) \<or> Bound depth = max_depth gl then
        Return (Fin (node_evaluation S gl (state node) * (if player = min_player gl then - 1 else 1)), node)
      else
        let other_player = (if player = min_player gl then max_player gl else min_player gl) in
        case sorted_cols S gl (state node) of
          OutOfFuel \<Rightarrow> OutOfFuel
        | Raise e \<Rightarrow> Raise e
        | Return cols \<Rightarrow>
            (case cols of
               [] \<Rightarrow> Return (MInf, node)
             | first # _ \<Rightarrow>
                 store_chosen node
                   (negascout_loop
                      (\<lambda>column a b. returned_score
                         (negascout S gl fuel
                            \<lparr>state = generate_successor_state S (state node) column, col = column, chosen_succ = None\<rparr>
                            other_player a b (depth + 1)))
                      first cols MInf alpha beta (chosen_succ node))))"

subsection \<open>The agents\<close>

text \<open>
  get\_chosen\_column assigns the three globals and runs the search from a fresh root.
  The model takes the globals as the call finds them (None: still unassigned) and
  returns them as the call leaves them, next to the call's result.
\<close>

definition assign_globals :: "'st State \<Rightarrow> 'st \<Rightarrow> int \<Rightarrow> globals" where
  "assign_globals S st depth =
     (let maxp = get_next_on_move S st in
      \<lparr>max_depth = (if depth \<noteq> 0 then Bound depth else Unbounded),
       max_player = maxp,
       min_player = (if maxp = YEL then RED else YEL)\<rparr>)"

definition chosen_col :: "(score \<times> 'st Node) result \<Rightarrow> int option result" where
  "chosen_col r = (case r of OutOfFuel \<Rightarrow> OutOfFuel | Raise e \<Rightarrow> Raise e
                   | Return (_, root) \<Rightarrow> Return (chosen_succ root))"

definition MinimaxABAgent_get_chosen_column ::
    "'st State \<Rightarrow> nat \<Rightarrow> globals option \<Rightarrow> 'st \<Rightarrow> int \<Rightarrow> globals option \<times> int option result" where
  "MinimaxABAgent_get_chosen_column S fuel before st depth =
     (let gl = assign_globals S st depth;
          root = \<lparr>state = st, col = - 1, chosen_succ = None\<rparr>
      in (Some gl, chosen_col (minimax_ab S gl fuel root (max_player gl) MInf PInf 0)))"

definition Negascout_get_chosen_column ::
    "'st State \<Rightarrow> nat \<Rightarrow> globals option \<Rightarrow> 'st \<Rightarrow> int \<Rightarrow> globals option \<times> int option result" where
  "Negascout_get_chosen_column S fuel before st depth =
     (let gl = assign_globals S st depth;
          root = \<lparr>state = st, col = - 1, chosen_succ = None\<rparr>
      in (Some gl, chosen_col (negascout S gl fuel root (max_player gl) MInf PInf 0)))"

subsection \<open>Reference notions for the properties\<close>

text \<open>
  The contract of get\_possible\_columns: a position in progress has a legal column, and
  every legal column is one of the seven columns 0 .. 6 of the board.
\<close>

definition columns_contract :: "'st State \<Rightarrow> bool" where
  "columns_contract S =
     (\<forall>st. get_state_status S st = None \<longrightarrow>
        get_possible_columns S st \<noteq> [] \<and>
        (\<forall>c \<in> set (get_possible_columns S st). 0 \<le> c \<and> c < 7))"

text \<open>
  \<open>search_ends S gl h st d\<close>: every line of play from \<open>st\<close>, entered at depth \<open>d\<close>,
  reaches a terminal position or the depth limit within \<open>h\<close> plies.
\<close>

primrec search_ends :: "'st State \<Rightarrow> globals \<Rightarrow> nat \<Rightarrow> 'st \<Rightarrow> int \<Rightarrow> bool" where
  "search_ends S gl 0 st d = (is_terminal_node S st \<or> Bound d = max_depth gl)"
| "search_ends S gl (Suc h) st d =
     (is_terminal_node S st \<or> Bound d = max_depth gl \<or>
      list_all (\<lambda>c. search_ends S gl h (generate_successor_state S st c) (d + 1))
               (get_possible_columns S st))"

fun maxl :: "(int \<Rightarrow> score) \<Rightarrow> int list \<Rightarrow> score" where
  "maxl f [] = MInf"
| "maxl f (c # cs) = max (f c) (maxl f cs)"

text \<open>
  The game value without pruning and without move ordering, in the negamax convention
  (from the point of view of the player to move), over at most \<open>h\<close> further plies.
\<close>

primrec negamax :: "'st State \<Rightarrow> globals \<Rightarrow> nat \<Rightarrow> 'st \<Rightarrow> player \<Rightarrow> int \<Rightarrow> score" where
  "negamax S gl 0 st p d =
     Fin (node_evaluation S gl st * (if p = min_player gl then - 1 else 1))"
| "negamax S gl (Suc h) st p d =
     (if is_terminal_node S st \<or> Bound d = max_depth gl then
        Fin (node_evaluation S gl st * (if p = min_player gl then - 1 else 1))
      else
        maxl (\<lambda>c. neg (negamax S gl h (generate_successor_state S st c)
                           (if p = min_player gl then max_player gl else min_player gl) (d + 1)))
             (get_possible_columns S st))"

text \<open>
  The game played to its end, with no depth counter at all: \<open>game_ends S h st\<close> says
  that every line of play from \<open>st\<close> reaches a terminal position within \<open>h\<close> plies,
  \<open>game_lasts S k st\<close> that no line of play from \<open>st\<close> reaches one within \<open>k\<close> plies,
  and \<open>game_value\<close> is the negamax value when positions are evaluated only where the
  game is over.
\<close>

primrec game_ends :: "'st State \<Rightarrow> nat \<Rightarrow> 'st \<Rightarrow> bool" where
  "game_ends S 0 st = is_terminal_node S st"
| "game_ends S (Suc h) st =
     (is_terminal_node S st \<or>
      list_all (\<lambda>c. game_ends S h (generate_successor_state S st c)) (get_possible_columns S st))"

primrec game_lasts :: "'st State \<Rightarrow> nat \<Rightarrow> 'st \<Rightarrow> bool" where
  "game_lasts S 0 st = (\<not> is_terminal_node S st)"
| "game_lasts S (Suc k) st =
     (\<not> is_terminal_node S st \<and>
      list_all (\<lambda>c. game_lasts S k (generate_successor_state S st c)) (get_possible_columns S st))"

primrec game_value :: "'st State \<Rightarrow> globals \<Rightarrow> nat \<Rightarrow> 'st \<Rightarrow> player \<Rightarrow> score" where
  "game_value S gl 0 st p =
     Fin (node_evaluation S gl st * (if p = min_player gl then - 1 else 1))"
| "game_value S gl (Suc h) st p =
     (if is_terminal_node S st then
        Fin (node_evaluation S gl st * (if p = min_player gl then - 1 else 1))
      else
        maxl (\<lambda>c. neg (game_value S gl h (generate_successor_state S st c)
                           (if p = min_player gl then max_player gl else min_player gl)))
             (get_possible_columns S st))"

fun is_fin :: "score \<Rightarrow> bool" where
  "is_fin (Fin _) = True"
| "is_fin _ = False"

text \<open>
  The relation between the value \<open>v\<close> a window search returns and the true value \<open>m\<close>:
  exact inside the window \<open>(a, b)\<close>, a bound on the right side outside of it.
\<close>

definition fail_soft :: "score \<Rightarrow> score \<Rightarrow> score \<Rightarrow> score \<Rightarrow> bool" where
  "fail_soft v m a b =
     ((v \<le> a \<longrightarrow> m \<le> v) \<and> (b \<le> v \<longrightarrow> v \<le> m) \<and> (a < v \<and> v < b \<longrightarrow> v = m))"

definition neg_score :: "score result \<Rightarrow> score result" where
  "neg_score r = (case r of OutOfFuel \<Rightarrow> OutOfFuel | Raise e \<Rightarrow> Raise e | Return v \<Rightarrow> Return (neg v))"

definition neg_fst :: "(score \<times> 'a) result \<Rightarrow> (score \<times> 'a) result" where
  "neg_fst r = (case r of OutOfFuel \<Rightarrow> OutOfFuel | Raise e \<Rightarrow> Raise e
                | Return (v, x) \<Rightarrow> Return (neg v, x))"

definition tokens_placed :: "'st State \<Rightarrow> 'st \<Rightarrow> player \<Rightarrow> nat" where
  "tokens_placed S st p = card {i. i < 42 \<and> bit (get_checkers S st p) i}"

text \<open>The winning lines that hold no token of player \<open>p\<close>.\<close>

definition lines_free_of :: "'st State \<Rightarrow> 'st \<Rightarrow> player \<Rightarrow> nat" where
  "lines_free_of S st p =
     length (filter (\<lambda>mask. and mask (get_checkers S st p) = 0) (win_masks S))"

text \<open>The root node get\_chosen\_column builds: \<open>Node(state, -1)\<close>.\<close>

definition root_of :: "'st \<Rightarrow> 'st Node" where
  "root_of st = \<lparr>state = st, col = - 1, chosen_succ = None\<rparr>"

text \<open>The score of a finished game with status \<open>s\<close>.\<close>

definition decisive_score :: "'st State \<Rightarrow> globals \<Rightarrow> 'st \<Rightarrow> status \<Rightarrow> int" where
  "decisive_score S gl st s =
     (case s of
        Win w \<Rightarrow> if w = max_player gl then 1000 - int (tokens_placed S st w)
                 else - 1000 + int (tokens_placed S st w)
      | DRAW \<Rightarrow> 0)"

subsection \<open>An instance of the collaborator: the 7 x 6 board\<close>

text \<open>
  Modelled from the spec: the State class (legal columns, successor positions, status,
  token bitmasks, player to move, win masks) is not among the sources. The instance
  below follows the collaborator contract of the specification and the bit layout of
  the module docstring of agents.py: cell (column c, row r) is bit \<open>6 * c + r\<close>, row 0
  at the bottom. It supplies the concrete positions at which the general properties
  are instantiated.
\<close>

record board =
  red :: int
  yel :: int
  turn :: player

definition cell :: "nat \<Rightarrow> nat \<Rightarrow> int" where
  "cell c r = push_bit (6 * c + r) 1"

definition line_mask :: "(nat \<times> nat) list \<Rightarrow> int" where
  "line_mask cells = fold (\<lambda>(c, r) m. or m (cell c r)) cells 0"

text \<open>The 69 lines of four cells: 24 horizontal, 21 vertical, 12 on each diagonal.\<close>

definition c4_lines :: "int list" where
  "c4_lines =
     [line_mask [(c, r), (c + 1, r), (c + 2, r), (c + 3, r)]. c \<leftarrow> [0..<4], r \<leftarrow> [0..<6]] @
     [line_mask [(c, r), (c, r + 1), (c, r + 2), (c, r + 3)]. c \<leftarrow> [0..<7], r \<leftarrow> [0..<3]] @
     [line_mask [(c, r), (c + 1, r + 1), (c + 2, r + 2), (c + 3, r + 3)]. c \<leftarrow> [0..<4], r \<leftarrow> [0..<3]] @
     [line_mask [(c, r + 3), (c + 1, r + 2), (c + 2, r + 1), (c + 3, r)]. c \<leftarrow> [0..<4], r \<leftarrow> [0..<3]]"

definition c4_win_masks :: "int list" where
  "c4_win_masks =
     [266305, 532610, 1065220, 2130440, 4260880, 8521760,
      17043520, 34087040, 68174080, 136348160, 272696320, 545392640,
      1090785280, 2181570560, 4363141120, 8726282240, 17452564480, 34905128960,
      69810257920, 139620515840, 279241031680, 558482063360, 1116964126720, 2233928253440,
      15, 30, 60, 960, 1920, 3840,
      61440, 122880, 245760, 3932160, 7864320, 15728640,
      251658240, 503316480, 1006632960, 16106127360, 32212254720, 64424509440,
      1030792151040, 2061584302080, 4123168604160, 2113665, 4227330, 8454660,
      135274560, 270549120, 541098240, 8657571840, 17315143680, 34630287360,
      554084597760, 1108169195520, 2216338391040, 270600, 541200, 1082400,
      17318400, 34636800, 69273600, 1108377600, 2216755200, 4433510400,
      70936166400, 141872332800, 283744665600]"

definition occupied :: "board \<Rightarrow> int" where
  "occupied b = or (red b) (yel b)"

definition c4_columns :: "board \<Rightarrow> int list" where
  "c4_columns b = map int (filter (\<lambda>c. and (occupied b) (cell c 5) = 0) [0..<7])"

definition has_line :: "int \<Rightarrow> bool" where
  "has_line tokens = list_ex (\<lambda>m. and m tokens = m) c4_win_masks"

definition c4_status :: "board \<Rightarrow> status option" where
  "c4_status b =
     (if has_line (red b) then Some (Win RED)
      else if has_line (yel b) then Some (Win YEL)
      else if c4_columns b = [] then Some DRAW
      else None)"

definition c4_drop :: "board \<Rightarrow> int \<Rightarrow> board" where
  "c4_drop b column =
     (let c = nat column;
          r = length (takeWhile (\<lambda>r. and (occupied b) (cell c r) \<noteq> 0) [0..<6]);
          token = cell c r
      in case turn b of
           RED \<Rightarrow> b\<lparr>red := or (red b) token, turn := YEL\<rparr>
         | YEL \<Rightarrow> b\<lparr>yel := or (yel b) token, turn := RED\<rparr>)"

definition c4 :: "board State" where
  "c4 = \<lparr>get_state_status = c4_status,
         get_checkers = (\<lambda>b p. case p of RED \<Rightarrow> red b | YEL \<Rightarrow> yel b),
         get_possible_columns = c4_columns,
         generate_successor_state = c4_drop,
         get_next_on_move = turn,
         win_masks = c4_win_masks\<rparr>"

text \<open>
  Positions: the example of the module docstring (four tokens each, RED to move); RED
  one move from four in column 0; that position after RED has played column 0; a full
  board without a line of four.
\<close>

definition docstring_board :: board where
  "docstring_board = \<lparr>red = 2148794369, yel = 1076363328, turn = RED\<rparr>"

definition red_to_win :: board where
  "red_to_win = \<lparr>red = 7, yel = 448, turn = RED\<rparr>"

definition red_has_won :: board where
  "red_has_won = \<lparr>red = 15, yel = 448, turn = YEL\<rparr>"

definition drawn_board :: board where
  "drawn_board = \<lparr>red = 847397047539, yel = 3550649463564, turn = RED\<rparr>"

text \<open>
  A position reached in play with two empty cells (columns 1 and 5), RED to move:
  whatever RED plays, YEL completes a line with the last token.
\<close>

definition yellow_wins_late :: board where
  "yellow_wins_late = \<lparr>red = 1677605818747, yel = 2686080951940, turn = RED\<rparr>"

text \<open>Globals as get\_chosen\_column leaves them when RED, and when YEL, is to move.\<close>

definition red_max :: globals where
  "red_max = \<lparr>max_depth = Bound 1, max_player = RED, min_player = YEL\<rparr>"

definition yel_max :: globals where
  "yel_max = \<lparr>max_depth = Bound 1, max_player = YEL, min_player = RED\<rparr>"

text \<open>
  A collaborator that breaks the contract, for comparison: eight positions numbered from
  0, of which 3 and 7 are in progress but have no legal column, and 6 is a draw.
\<close>

definition stuck :: "nat State" where
  "stuck = \<lparr>get_state_status = (\<lambda>st. if st = 6 then Some DRAW else None),
            get_checkers = (\<lambda>st p. 0),
            get_possible_columns =
              (\<lambda>st. if st = 0 \<or> st = 4 then [0, 1]
                    else if st = 1 \<or> st = 2 \<or> st = 5 then [0] else []),
            generate_successor_state =
              (\<lambda>st c. if st = 0 then (if c = 1 then 1 else 2)
                      else if st = 1 then 3
                      else if st = 2 then 4
                      else if st = 4 then (if c = 1 then 5 else 6)
                      else if st = 5 then 7 else 8),
            get_next_on_move = (\<lambda>st. RED),
            win_masks = []\<rparr>"

section \<open>Properties\<close>

subsection \<open>Scores\<close>

lemma score_le_simps [simp]:
  "MInf \<le> x" "x \<le> PInf" "(Fin a \<le> Fin b) = (a \<le> b)"
  "(PInf \<le> x) = (x = PInf)" "(x \<le> MInf) = (x = MInf)"
  by (cases x; simp add: less_eq_score_def)+

lemma score_less_simps [simp]:
  "(Fin a < Fin b) = (a < b)" "MInf < Fin a" "Fin a < PInf" "MInf < PInf"
  "\<not> x < MInf" "\<not> PInf < x" "(MInf < x) = (x \<noteq> MInf)" "(x < PInf) = (x \<noteq> PInf)"
  by (cases x; auto simp add: less_score_def)+

lemma neg_neg [simp]: "neg (neg x) = x"
  by (cases x) simp_all

lemma neg_le_iff [simp]: "(neg x \<le> neg y) = (y \<le> x)"
  by (cases x; cases y) simp_all

lemma neg_less_iff [simp]: "(neg x < neg y) = (y < x)"
  by (cases x; cases y) simp_all

lemma neg_eq_iff [simp]: "(neg x = neg y) = (x = y)"
  by (cases x; cases y) simp_all

lemma is_fin_neg [simp]: "is_fin (neg x) = is_fin x"
  by (cases x) simp_all

lemma fail_soft_neg: "fail_soft (neg v) (neg m) (neg b) (neg a) = fail_soft v m a b"
  by (auto simp: fail_soft_def)

lemma fail_soft_full: "fail_soft v m MInf PInf \<Longrightarrow> is_fin v \<Longrightarrow> v = m"
  by (cases v) (auto simp: fail_soft_def)

lemma fail_soft_refl: "fail_soft v v a b"
  by (simp add: fail_soft_def)

lemma maxl_Max: "maxl f cs = Max (insert MInf (f ` set cs))"
proof (induction cs)
  case Nil
  show ?case by simp
next
  case (Cons c cs)
  have "insert MInf (f ` set (c # cs)) = insert (f c) (insert MInf (f ` set cs))"
    by auto
  then have "Max (insert MInf (f ` set (c # cs))) = max (f c) (Max (insert MInf (f ` set cs)))"
    by (simp only: Max_insert [OF _ insert_not_empty] finite_insert finite_imageI finite_set)
  with Cons show ?case by simp
qed

lemma maxl_cong_set: "set cs = set cs' \<Longrightarrow> maxl f cs = maxl f cs'"
  by (simp add: maxl_Max)

subsection \<open>The evaluator\<close>

lemma and_exp_nonzero: "(and (c::int) (2 ^ n) \<noteq> 0) = bit c n"
  by (simp add: and_exp_eq_0_iff_not_bit)

lemma set_bits_Suc:
  "{i. i < Suc n \<and> bit (c::int) i} =
     (if bit c n then insert n {i. i < n \<and> bit c i} else {i. i < n \<and> bit c i})"
  by (auto simp: less_Suc_eq)

lemma count_tokens_fold:
  "fold (\<lambda>i (cnt, mask). (if and c mask \<noteq> 0 then cnt + 1 else cnt, push_bit 1 mask)) [0..<n] (0, 1)
     = (int (card {i. i < n \<and> bit (c::int) i}), 2 ^ n)"
proof (induction n)
  case 0
  show ?case by simp
next
  case (Suc n)
  have fin: "finite {i. i < n \<and> bit c i}" by simp
  have notin: "n \<notin> {i. i < n \<and> bit c i}" by simp
  show ?case
    using Suc fin notin
    by (simp add: and_exp_nonzero set_bits_Suc push_bit_eq_mult del: upt_Suc add: upt_Suc_append)
qed

lemma count_tokens_card: "count_tokens c = int (card {i. i < 42 \<and> bit c i})"
  by (simp only: count_tokens_def count_tokens_fold fst_conv)

lemma masks_fold:
  "fold (\<lambda>mask (w, l). (if and mask a = 0 then w + 1 else w, if and mask b = 0 then l + 1 else l)) ms (w0, l0)
     = (w0 + int (length (filter (\<lambda>mask. and mask a = 0) ms)),
        l0 + int (length (filter (\<lambda>mask. and mask b = (0::int)) ms)))"
  by (induction ms arbitrary: w0 l0) auto

lemma node_evaluation_in_progress:
  "get_state_status S st = None \<Longrightarrow>
   node_evaluation S gl st =
     int (lines_free_of S st (min_player gl)) - int (lines_free_of S st (max_player gl))"
  by (simp add: node_evaluation_def masks_fold lines_free_of_def)

lemma player_two: "(p::player) \<noteq> q \<Longrightarrow> r \<noteq> p \<Longrightarrow> r = q"
  by (cases p; cases q; cases r) simp_all

lemma node_evaluation_terminal:
  "max_player gl \<noteq> min_player gl \<Longrightarrow> get_state_status S st = Some s \<Longrightarrow>
   node_evaluation S gl st = decisive_score S gl st s"
  by (cases s)
     (auto simp: node_evaluation_def decisive_score_def count_tokens_card tokens_placed_def
           dest: player_two)

lemma assign_globals_distinct:
  "max_player (assign_globals S st depth) \<noteq> min_player (assign_globals S st depth)"
  by (simp add: assign_globals_def Let_def)

text \<open>
  C4: when the two players differ, node\_evaluation is 1000 minus the number of tokens of
  the maximizing player if that player has won, -1000 plus the number of tokens of the
  minimizing player if that player has won, 0 on a draw, and for a position in progress
  the number of win masks free of minimizing-player tokens minus the number of win
  masks free of maximizing-player tokens.
\<close>

theorem node_evaluation_cases:
  assumes "max_player gl \<noteq> min_player gl"
  shows "(get_state_status S st = Some (Win (max_player gl)) \<longrightarrow>
            node_evaluation S gl st = 1000 - int (tokens_placed S st (max_player gl))) \<and>
         (get_state_status S st = Some (Win (min_player gl)) \<longrightarrow>
            node_evaluation S gl st = - 1000 + int (tokens_placed S st (min_player gl))) \<and>
         (get_state_status S st = Some DRAW \<longrightarrow> node_evaluation S gl st = 0) \<and>
         (get_state_status S st = None \<longrightarrow>
            node_evaluation S gl st
              = int (lines_free_of S st (min_player gl)) - int (lines_free_of S st (max_player gl)))"
  using assms
  by (auto simp: node_evaluation_terminal decisive_score_def node_evaluation_in_progress)

theorem node_evaluation_cases_witness:
  "max_player red_max \<noteq> min_player red_max \<and> max_player yel_max \<noteq> min_player yel_max \<and>
   get_state_status c4 red_has_won = Some (Win (max_player red_max)) \<and>
   node_evaluation c4 red_max red_has_won
     = 1000 - int (tokens_placed c4 red_has_won (max_player red_max)) \<and>
   get_state_status c4 red_has_won = Some (Win (min_player yel_max)) \<and>
   node_evaluation c4 yel_max red_has_won
     = - 1000 + int (tokens_placed c4 red_has_won (min_player yel_max)) \<and>
   get_state_status c4 drawn_board = Some DRAW \<and>
   node_evaluation c4 red_max drawn_board = 0 \<and>
   get_state_status c4 docstring_board = None \<and>
   node_evaluation c4 red_max docstring_board
     = int (lines_free_of c4 docstring_board (min_player red_max))
       - int (lines_free_of c4 docstring_board (max_player red_max))"
proof -
  have r: "max_player red_max \<noteq> min_player red_max" by code_simp
  have y: "max_player yel_max \<noteq> min_player yel_max" by code_simp
  have 1: "get_state_status c4 red_has_won = Some (Win (max_player red_max))" by code_simp
  have 2: "get_state_status c4 red_has_won = Some (Win (min_player yel_max))" by code_simp
  have 3: "get_state_status c4 drawn_board = Some DRAW" by code_simp
  have 4: "get_state_status c4 docstring_board = None" by code_simp
  show ?thesis
    using node_evaluation_cases [OF r, of c4 red_has_won] node_evaluation_cases [OF y, of c4 red_has_won]
      node_evaluation_cases [OF r, of c4 drawn_board] node_evaluation_cases [OF r, of c4 docstring_board]
      r y 1 2 3 4
    by blast
qed

text \<open>
  C8: for a position in progress, the score with A as maximizer and B as minimizer is
  the negation of the score with the two roles swapped.
\<close>

theorem evaluator_antisymmetric:
  "get_state_status S st = None \<Longrightarrow>
   node_evaluation S (gl\<lparr>max_player := A, min_player := B\<rparr>) st
     = - node_evaluation S (gl\<lparr>max_player := B, min_player := A\<rparr>) st"
  by (simp add: node_evaluation_in_progress)

theorem evaluator_antisymmetric_witness:
  "get_state_status c4 docstring_board = None \<and>
   node_evaluation c4 (yel_max\<lparr>max_player := RED, min_player := YEL\<rparr>) docstring_board
     = - node_evaluation c4 (yel_max\<lparr>max_player := YEL, min_player := RED\<rparr>) docstring_board"
proof -
  have h: "get_state_status c4 docstring_board = None" by code_simp
  from evaluator_antisymmetric [OF h] h show ?thesis by blast
qed

subsection \<open>The loops of minimax\_ab\<close>

lemma max_loop_sound:
  assumes "\<forall>c\<in>set cols. \<forall>a b. a < b \<longrightarrow> (\<exists>r. search c a b = Return r \<and> is_fin r \<and> fail_soft r (t c) a b)"
    and "a < \<beta>" and "\<alpha> < \<beta>" and "a = s \<or> (s = MInf \<and> a = \<alpha>)"
    and "Mp \<le> s" and "\<alpha> < s \<longrightarrow> s \<le> Mp"
  shows "\<exists>v ch. max_loop search cols s a \<beta> chosen = Return (v, ch)
           \<and> fail_soft v (max Mp (maxl t cols)) \<alpha> \<beta> \<and> (is_fin s \<or> cols \<noteq> [] \<longrightarrow> is_fin v)"
  using assms
proof (induction cols arbitrary: s a Mp chosen)
  case Nil
  then show ?case by (auto simp: fail_soft_def)
next
  case (Cons c cols)
  have "\<forall>a b. a < b \<longrightarrow> (\<exists>r. search c a b = Return r \<and> is_fin r \<and> fail_soft r (t c) a b)"
    using Cons.prems(1) by simp
  with Cons.prems(2) obtain r where r: "search c a \<beta> = Return r" "is_fin r" "fail_soft r (t c) a \<beta>"
    by blast
  have rest: "\<forall>c\<in>set cols. \<forall>a b. a < b \<longrightarrow> (\<exists>r. search c a b = Return r \<and> is_fin r \<and> fail_soft r (t c) a b)"
    using Cons.prems(1) by simp
  have assoc: "max (max Mp (t c)) (maxl t cols) = max Mp (maxl t (c # cols))"
    by (simp add: max.assoc)
  show ?case
  proof (cases "s < r")
    case True
    note sr = True
    show ?thesis
    proof (cases "\<beta> \<le> r")
      case True
      have "fail_soft r (max Mp (maxl t (c # cols))) \<alpha> \<beta>"
        using True r(3) Cons.prems(3) by (auto simp: fail_soft_def max_def)
      then show ?thesis using True sr r by simp
    next
      case False
      have 1: "r < \<beta>" using False by simp
      have 2: "max Mp (t c) \<le> r"
        using r(3) 1 sr Cons.prems(4,5) by (auto simp: fail_soft_def)
      have 3: "\<alpha> < r \<longrightarrow> r \<le> max Mp (t c)"
        using r(3) 1 sr Cons.prems(4,5) by (auto simp: fail_soft_def max_def)
      from Cons.IH[OF rest 1 Cons.prems(3) _ 2 3, of "Some c"]
      obtain v ch where "max_loop search cols r r \<beta> (Some c) = Return (v, ch)"
        "fail_soft v (max (max Mp (t c)) (maxl t cols)) \<alpha> \<beta>" "is_fin v"
        using r(2) by auto
      then show ?thesis using sr False r(1) assoc by simp
    qed
  next
    case False
    have 2: "max Mp (t c) \<le> s"
      using r(3) False Cons.prems(4,5) by (auto simp: fail_soft_def)
    have 3: "\<alpha> < s \<longrightarrow> s \<le> max Mp (t c)"
      using Cons.prems(6) by (auto simp: max_def)
    have fin: "is_fin s" using False r(2) Cons.prems(2,4) by (cases s; cases r) auto
    from Cons.IH[OF rest Cons.prems(2) Cons.prems(3) Cons.prems(4) 2 3, of chosen]
    obtain v ch where "max_loop search cols s a \<beta> chosen = Return (v, ch)"
        "fail_soft v (max (max Mp (t c)) (maxl t cols)) \<alpha> \<beta>" "is_fin v"
      using fin by auto
    moreover have "\<not> \<beta> \<le> a" using Cons.prems(2) by simp
    ultimately show ?thesis using False r(1) assoc by simp
  qed
qed

subsection \<open>Terminal positions and the globals\<close>

lemma minimax_ab_terminal:
  "is_terminal_node S (state node) \<Longrightarrow>
   minimax_ab S gl (Suc fuel) node p a b d = Return (Fin (node_evaluation S gl (state node)), node)"
  by simp

lemma negascout_terminal:
  "is_terminal_node S (state node) \<Longrightarrow>
   negascout S gl (Suc fuel) node p a b d
     = Return (Fin (node_evaluation S gl (state node) * (if p = min_player gl then - 1 else 1)), node)"
  by simp

text \<open>
  C5: a terminal position is scored by the terminal branch of the evaluator (win, loss
  or draw) at every depth, so also when it is reached exactly at the depth limit;
  negascout returns that score from the point of view of the player to move.
\<close>

theorem terminal_before_depth_limit:
  assumes "get_state_status S (state node) = Some s" and "max_player gl \<noteq> min_player gl"
  shows "minimax_ab S gl (Suc fuel) node p a b d
           = Return (Fin (decisive_score S gl (state node) s), node) \<and>
         negascout S gl (Suc fuel) node p a b d
           = Return (Fin (decisive_score S gl (state node) s * (if p = min_player gl then - 1 else 1)), node)"
  using assms
  by (simp add: is_terminal_node_def node_evaluation_terminal)

theorem terminal_before_depth_limit_witness:
  "get_state_status c4 (state \<lparr>state = red_has_won, col = 0, chosen_succ = None\<rparr>) = Some (Win RED) \<and>
   max_player red_max \<noteq> min_player red_max \<and>
   Bound 1 = max_depth red_max \<and>
   minimax_ab c4 red_max (Suc 0) \<lparr>state = red_has_won, col = 0, chosen_succ = None\<rparr> YEL MInf PInf 1
     = Return (Fin (decisive_score c4 red_max red_has_won (Win RED)),
               \<lparr>state = red_has_won, col = 0, chosen_succ = None\<rparr>) \<and>
   negascout c4 red_max (Suc 0) \<lparr>state = red_has_won, col = 0, chosen_succ = None\<rparr> YEL MInf PInf 1
     = Return (Fin (decisive_score c4 red_max red_has_won (Win RED) * - 1),
               \<lparr>state = red_has_won, col = 0, chosen_succ = None\<rparr>)"
proof -
  have 1: "get_state_status c4 (state \<lparr>state = red_has_won, col = 0, chosen_succ = None\<rparr>) = Some (Win RED)"
    by code_simp
  have 2: "max_player red_max \<noteq> min_player red_max" by code_simp
  have 3: "Bound 1 = max_depth red_max" by code_simp
  have 4: "YEL = min_player red_max" by code_simp
  show ?thesis
    using terminal_before_depth_limit [OF 1 2, of 0 YEL MInf PInf 1] 1 2 3 4 by simp
qed

text \<open>
  C10: on a terminal position the recursive search returns at the root without
  assigning the root's chosen\_succ, and get\_chosen\_column of either agent returns
  None without raising.
\<close>

theorem terminal_root_leaves_chosen_unset:
  assumes "is_terminal_node S st"
  shows "minimax_ab S (assign_globals S st depth) (Suc fuel) \<lparr>state = st, col = - 1, chosen_succ = None\<rparr>
           (max_player (assign_globals S st depth)) MInf PInf 0
           = Return (Fin (node_evaluation S (assign_globals S st depth) st),
                     \<lparr>state = st, col = - 1, chosen_succ = None\<rparr>) \<and>
         negascout S (assign_globals S st depth) (Suc fuel) \<lparr>state = st, col = - 1, chosen_succ = None\<rparr>
           (max_player (assign_globals S st depth)) MInf PInf 0
           = Return (Fin (node_evaluation S (assign_globals S st depth) st),
                     \<lparr>state = st, col = - 1, chosen_succ = None\<rparr>) \<and>
         snd (MinimaxABAgent_get_chosen_column S (Suc fuel) before st depth) = Return None \<and>
         snd (Negascout_get_chosen_column S (Suc fuel) before st depth) = Return None"
  using assms assign_globals_distinct [of S st depth]
  by (simp add: MinimaxABAgent_get_chosen_column_def Negascout_get_chosen_column_def chosen_col_def
        Let_def)

theorem terminal_root_leaves_chosen_unset_witness:
  "is_terminal_node c4 drawn_board \<and>
   minimax_ab c4 (assign_globals c4 drawn_board 3) (Suc 0) \<lparr>state = drawn_board, col = - 1, chosen_succ = None\<rparr>
           (max_player (assign_globals c4 drawn_board 3)) MInf PInf 0
           = Return (Fin 0, \<lparr>state = drawn_board, col = - 1, chosen_succ = None\<rparr>) \<and>
   negascout c4 (assign_globals c4 drawn_board 3) (Suc 0) \<lparr>state = drawn_board, col = - 1, chosen_succ = None\<rparr>
           (max_player (assign_globals c4 drawn_board 3)) MInf PInf 0
           = Return (Fin 0, \<lparr>state = drawn_board, col = - 1, chosen_succ = None\<rparr>) \<and>
   snd (MinimaxABAgent_get_chosen_column c4 (Suc 0) None drawn_board 3) = Return None \<and>
   snd (Negascout_get_chosen_column c4 (Suc 0) None drawn_board 3) = Return None"
proof -
  have 1: "is_terminal_node c4 drawn_board" by code_simp
  have 2: "node_evaluation c4 (assign_globals c4 drawn_board 3) drawn_board = 0" by code_simp
  show ?thesis
    using terminal_root_leaves_chosen_unset [OF 1, of 3 0 None] 1 2 by simp
qed

text \<open>
  C2, as stated, fails: on a finished game neither agent rejects the call; both return
  None.
\<close>

theorem terminal_position_not_rejected_counterexample:
  "is_terminal_node c4 red_has_won \<and>
   snd (MinimaxABAgent_get_chosen_column c4 1 None red_has_won 4) = Return None \<and>
   snd (Negascout_get_chosen_column c4 1 None red_has_won 4) = Return None"
  by code_simp

text \<open>
  C2, amended: on a terminal position get\_chosen\_column of either agent assigns the
  globals and runs the recursive search on the root; it never raises.
\<close>

theorem terminal_position_searched:
  assumes "is_terminal_node S st"
  shows "MinimaxABAgent_get_chosen_column S (Suc fuel) before st depth
           = (Some (assign_globals S st depth),
              chosen_col (minimax_ab S (assign_globals S st depth) (Suc fuel) (root_of st)
                            (get_next_on_move S st) MInf PInf 0)) \<and>
         Negascout_get_chosen_column S (Suc fuel) before st depth
           = (Some (assign_globals S st depth),
              chosen_col (negascout S (assign_globals S st depth) (Suc fuel) (root_of st)
                            (get_next_on_move S st) MInf PInf 0)) \<and>
         (\<forall>e. snd (MinimaxABAgent_get_chosen_column S (Suc fuel) before st depth) \<noteq> Raise e) \<and>
         (\<forall>e. snd (Negascout_get_chosen_column S (Suc fuel) before st depth) \<noteq> Raise e)"
  using assms
  by (simp add: MinimaxABAgent_get_chosen_column_def Negascout_get_chosen_column_def chosen_col_def
        Let_def root_of_def assign_globals_def)

theorem terminal_position_searched_witness:
  "is_terminal_node c4 red_has_won \<and>
   MinimaxABAgent_get_chosen_column c4 (Suc 0) None red_has_won 4
     = (Some (assign_globals c4 red_has_won 4),
        chosen_col (minimax_ab c4 (assign_globals c4 red_has_won 4) (Suc 0) (root_of red_has_won)
                      (get_next_on_move c4 red_has_won) MInf PInf 0)) \<and>
   Negascout_get_chosen_column c4 (Suc 0) None red_has_won 4
     = (Some (assign_globals c4 red_has_won 4),
        chosen_col (negascout c4 (assign_globals c4 red_has_won 4) (Suc 0) (root_of red_has_won)
                      (get_next_on_move c4 red_has_won) MInf PInf 0)) \<and>
   (\<forall>e. snd (MinimaxABAgent_get_chosen_column c4 (Suc 0) None red_has_won 4) \<noteq> Raise e) \<and>
   (\<forall>e. snd (Negascout_get_chosen_column c4 (Suc 0) None red_has_won 4) \<noteq> Raise e)"
proof -
  have 1: "is_terminal_node c4 red_has_won" by code_simp
  from terminal_position_searched [OF 1, of 0 None 4] 1 show ?thesis by blast
qed

text \<open>
  C3, amended: the three parameters are module globals; every get\_chosen\_column call
  overwrites them before it searches, so the result of the call and the globals it
  leaves depend only on the position and the depth argument, whatever the globals held
  before the call.
\<close>

theorem globals_overwritten_by_each_call:
  "MinimaxABAgent_get_chosen_column S fuel before st depth
     = MinimaxABAgent_get_chosen_column S fuel before' st depth \<and>
   Negascout_get_chosen_column S fuel before st depth
     = Negascout_get_chosen_column S fuel before' st depth \<and>
   fst (MinimaxABAgent_get_chosen_column S fuel before st depth) = Some (assign_globals S st depth) \<and>
   fst (Negascout_get_chosen_column S fuel before st depth) = Some (assign_globals S st depth)"
  by (simp add: MinimaxABAgent_get_chosen_column_def Negascout_get_chosen_column_def Let_def)

text \<open>
  C3, as stated, fails: the parameters are ambient state that a call leaves behind and
  the next call replaces, and the recursive search reads them; with the same explicit
  arguments it returns -996 under the globals one call left and 996 under those another
  call left.
\<close>

theorem search_reads_ambient_globals_counterexample:
  "fst (MinimaxABAgent_get_chosen_column c4 1 None red_has_won 1) = Some yel_max \<and>
   fst (Negascout_get_chosen_column c4 1 (Some yel_max) drawn_board 1) = Some red_max \<and>
   returned_score (minimax_ab c4 yel_max 1 (root_of red_has_won) YEL MInf PInf 0) = Return (Fin (- 996)) \<and>
   returned_score (minimax_ab c4 red_max 1 (root_of red_has_won) YEL MInf PInf 0) = Return (Fin 996)"
  by code_simp

subsection \<open>Move ordering, and the loops of negascout\<close>

lemma set_sorted_reverse: "set (sorted_reverse keyed) = snd ` set keyed"
  by (simp add: sorted_reverse_def)

lemma sorted_cols_set:
  "sorted_cols S gl st = Return cols \<Longrightarrow> set cols = set (get_possible_columns S st)"
proof -
  assume a: "sorted_cols S gl st = Return cols"
  let ?cs = "get_possible_columns S st"
  let ?ks = "map (sort_key_of S gl st) ?cs"
  from a have "cols = sorted_reverse (zip (map the ?ks) ?cs)"
    by (simp add: sorted_cols_def Let_def split: if_splits)
  then have "set cols = snd ` set (zip (map the ?ks) ?cs)"
    by (simp only: set_sorted_reverse)
  also have "\<dots> = set (map snd (zip (map the ?ks) ?cs))"
    by (simp only: set_map)
  also have "map snd (zip (map the ?ks) ?cs) = ?cs"
    by (rule map_snd_zip) simp
  finally show ?thesis .
qed

lemma col_priority_in_range: "0 \<le> c \<Longrightarrow> c < 7 \<Longrightarrow> col_priority c \<noteq> None"
  by (simp add: col_priority_def)

lemma sorted_cols_returns:
  assumes "\<forall>c \<in> set (get_possible_columns S st). 0 \<le> c \<and> c < 7"
  shows "\<exists>cols. sorted_cols S gl st = Return cols"
proof -
  have "\<forall>c \<in> set (get_possible_columns S st). sort_key_of S gl st c \<noteq> None"
    using assms by (auto simp: sort_key_of_def Let_def col_priority_def split: option.splits)
  then have "list_all (\<lambda>k. k \<noteq> None) (map (sort_key_of S gl st) (get_possible_columns S st))"
    by (simp add: list_all_iff)
  then show ?thesis by (simp add: sorted_cols_def Let_def)
qed

lemma sorted_cols_contract:
  assumes "columns_contract S" and "\<not> is_terminal_node S st"
  shows "\<exists>cols. sorted_cols S gl st = Return cols \<and> cols \<noteq> [] \<and> set cols = set (get_possible_columns S st)"
proof -
  from assms have ne: "get_possible_columns S st \<noteq> []"
    and rng: "\<forall>c \<in> set (get_possible_columns S st). 0 \<le> c \<and> c < 7"
    by (auto simp: columns_contract_def is_terminal_node_def)
  from sorted_cols_returns [OF rng] obtain cols where c: "sorted_cols S gl st = Return cols" by blast
  from sorted_cols_set [OF c] ne have "cols \<noteq> []" by auto
  with c sorted_cols_set [OF c] show ?thesis by blast
qed

lemma min_loop_mirror:
  "min_loop search cols s a b ch
     = neg_fst (max_loop (\<lambda>c a' b'. neg_score (search c (neg b') (neg a'))) cols (neg s) (neg b) (neg a) ch)"
proof (induction cols arbitrary: s a b ch)
  case Nil
  show ?case by (simp add: neg_fst_def)
next
  case (Cons c cols)
  show ?case
  proof (cases "search c a b")
    case OutOfFuel
    then show ?thesis by (simp add: neg_fst_def neg_score_def)
  next
    case (Raise e)
    then show ?thesis by (simp add: neg_fst_def neg_score_def)
  next
    case (Return r)
    have 1: "(neg s < neg r) = (r < s)" by simp
    show ?thesis
    proof (cases "r < s")
      case True
      then show ?thesis
        using Return Cons.IH [of r a r "Some c"]
        by (simp add: neg_score_def neg_fst_def)
    next
      case False
      then show ?thesis
        using Return Cons.IH [of s a b ch]
        by (simp add: neg_score_def neg_fst_def)
    qed
  qed
qed

lemma minus_one_neg_less: "is_fin a \<Longrightarrow> minus_one (neg a) < neg a"
  by (cases a) simp_all

lemma negascout_child_sound:
  assumes s: "\<forall>a b. a < b \<longrightarrow> (\<exists>r. search c a b = Return r \<and> is_fin r \<and> fail_soft r mc a b)"
    and ab: "a < \<beta>" and f: "c = first \<or> is_fin a"
  shows "\<exists>cs ch. negascout_child search first c a \<beta> chosen = Return (cs, ch) \<and> is_fin cs \<and>
           fail_soft cs (neg mc) a \<beta> \<and> (ch = chosen \<or> ch = Some c) \<and> (c = first \<longrightarrow> ch = Some c)"
proof -
  have "neg \<beta> < neg a" using ab by simp
  with s obtain r where r: "search c (neg \<beta>) (neg a) = Return r" "is_fin r" "fail_soft r mc (neg \<beta>) (neg a)"
    by blast
  have full: "fail_soft (neg r) (neg mc) a \<beta>"
    using r(3) fail_soft_neg [of "neg r" "neg mc" \<beta> a] by simp
  show ?thesis
  proof (cases "c = first")
    case True
    then show ?thesis using r full by (simp add: negascout_child_def)
  next
    case False
    with f have fa: "is_fin a" by simp
    from s minus_one_neg_less [OF fa]
    obtain q where q: "search c (minus_one (neg a)) (neg a) = Return q" "is_fin q"
      "fail_soft q mc (minus_one (neg a)) (neg a)"
      by blast
    show ?thesis
    proof (cases "a < neg q \<and> neg q < \<beta>")
      case True
      then show ?thesis using False q(1) r full by (simp add: negascout_child_def)
    next
      case F2: False
      obtain x where x: "a = Fin x" using fa by (cases a) simp_all
      obtain y where y: "q = Fin y" using q(2) by (cases q) simp_all
      have "fail_soft (neg q) (neg mc) a \<beta>"
        using q(3) F2 ab x y by (cases mc; cases \<beta>) (auto simp: fail_soft_def)
      then show ?thesis using False F2 q(1,2) by (auto simp add: negascout_child_def Let_def)
    qed
  qed
qed

lemma negascout_loop_sound:
  assumes "\<forall>c\<in>set cols. \<forall>a b. a < b \<longrightarrow> (\<exists>r. search c a b = Return r \<and> is_fin r \<and> fail_soft r (m c) a b)"
    and "a < \<beta>" and "a = max \<alpha> s" and "Mp \<le> s" and "\<alpha> < s \<longrightarrow> s \<le> Mp"
    and "is_fin s \<or> (s = MInf \<and> (cols = [] \<or> hd cols = first))"
  shows "\<exists>v ch. negascout_loop search first cols s a \<beta> chosen = Return (v, ch)
           \<and> fail_soft v (max Mp (maxl (\<lambda>c. neg (m c)) cols)) \<alpha> \<beta>
           \<and> (is_fin s \<or> cols \<noteq> [] \<longrightarrow> is_fin v)"
  using assms
proof (induction cols arbitrary: s a Mp chosen)
  case Nil
  then show ?case by (auto simp: fail_soft_def max_def split: if_splits)
next
  case (Cons c cols)
  let ?t = "\<lambda>c. neg (m c)"
  have sc: "\<forall>a b. a < b \<longrightarrow> (\<exists>r. search c a b = Return r \<and> is_fin r \<and> fail_soft r (m c) a b)"
    using Cons.prems(1) by simp
  have rest: "\<forall>c\<in>set cols. \<forall>a b. a < b \<longrightarrow> (\<exists>r. search c a b = Return r \<and> is_fin r \<and> fail_soft r (m c) a b)"
    using Cons.prems(1) by simp
  have sa: "s \<le> a" using Cons.prems(3) by simp
  have fa: "c = first \<or> is_fin a"
  proof (cases "is_fin s")
    case True
    then obtain x where "s = Fin x" by (cases s) simp_all
    with sa Cons.prems(2) show ?thesis by (cases a) auto
  next
    case False
    with Cons.prems(6) show ?thesis by simp
  qed
  from negascout_child_sound [where search = search and c = c and mc = "m c" and chosen = chosen,
      OF sc Cons.prems(2) fa]
  obtain cs ch where cs: "negascout_child search first c a \<beta> chosen = Return (cs, ch)"
    "is_fin cs" "fail_soft cs (?t c) a \<beta>"
    by blast
  let ?s' = "max s cs"
  let ?a' = "max a ?s'"
  have fs': "is_fin ?s'"
    using cs(2) Cons.prems(6) by (cases s; cases cs) (auto simp: max_def)
  have assoc: "max (max Mp (?t c)) (maxl ?t cols) = max Mp (maxl ?t (c # cols))"
    by (simp add: max.assoc)
  show ?case
  proof (cases "\<beta> \<le> ?a'")
    case True
    have bcs: "\<beta> \<le> cs" using True Cons.prems(2) sa by (auto simp: le_max_iff_disj)
    have "s \<le> cs" using sa Cons.prems(2) bcs by order
    then have scs: "?s' = cs" by (simp add: max_absorb2)
    have "\<alpha> < \<beta>" using Cons.prems(2,3) by simp
    then have "fail_soft cs (max Mp (maxl ?t (c # cols))) \<alpha> \<beta>"
      using cs(3) bcs by (auto simp: fail_soft_def le_max_iff_disj)
    then have "fail_soft ?s' (max Mp (maxl ?t (c # cols))) \<alpha> \<beta>"
      using scs by simp
    then show ?thesis using True cs(1) fs' by simp
  next
    case False
    have 1: "?a' < \<beta>" using False by (simp only: not_le)
    have 2: "?a' = max \<alpha> ?s'" using Cons.prems(3) by (auto simp: max_def)
    have csb: "cs < \<beta>" using 1 by simp
    have tc: "?t c \<le> cs"
      using cs(3) csb by (cases "cs \<le> a") (auto simp: fail_soft_def)
    have 3: "max Mp (?t c) \<le> ?s'"
      using tc Cons.prems(4) by (auto simp: le_max_iff_disj)
    have 4: "\<alpha> < ?s' \<longrightarrow> ?s' \<le> max Mp (?t c)"
    proof (cases "s < cs")
      case True
      then have e: "?s' = cs" by (simp add: max_absorb2 less_imp_le)
      show ?thesis
      proof
        assume "\<alpha> < ?s'"
        with e True Cons.prems(3) have "a < cs" by simp
        with cs(3) csb have "cs = ?t c" by (simp add: fail_soft_def)
        with e show "?s' \<le> max Mp (?t c)" by (simp add: le_max_iff_disj)
      qed
    next
      case False
      then have e: "?s' = s" by (simp add: max_absorb1 not_less)
      with Cons.prems(5) show ?thesis by (auto simp: le_max_iff_disj)
    qed
    have 5: "is_fin ?s' \<or> (?s' = MInf \<and> (cols = [] \<or> hd cols = first))"
      using fs' by simp
    from Cons.IH [OF rest 1 2 3 4 5, of ch]
    obtain v ch' where "negascout_loop search first cols ?s' ?a' \<beta> ch = Return (v, ch')"
      "fail_soft v (max (max Mp (?t c)) (maxl ?t cols)) \<alpha> \<beta>" "is_fin v"
      using fs' by auto
    then show ?thesis using False cs(1) assoc by (simp add: Let_def)
  qed
qed

subsection \<open>Both searches return the game value\<close>

lemma returned_score_Return [simp]: "returned_score (Return (v, n)) = Return v"
  by (simp add: returned_score_def)

lemma store_chosen_Return [simp]: "store_chosen node (Return (v, ch)) = Return (v, node\<lparr>chosen_succ := ch\<rparr>)"
  by (simp add: store_chosen_def)

lemma search_ends_children:
  assumes "search_ends S gl (Suc h) st d" and "\<not> is_terminal_node S st" and "Bound d \<noteq> max_depth gl"
    and "c \<in> set (get_possible_columns S st)"
  shows "search_ends S gl h (generate_successor_state S st c) (d + 1)"
  using assms by (auto simp: list_all_iff)

lemma negascout_sound:
  assumes con: "columns_contract S"
  shows "search_ends S gl h (state node) d \<Longrightarrow> h < n \<Longrightarrow> \<alpha> < \<beta> \<Longrightarrow>
         \<exists>v node'. negascout S gl n node p \<alpha> \<beta> d = Return (v, node') \<and> is_fin v \<and>
            fail_soft v (negamax S gl h (state node) p d) \<alpha> \<beta>"
proof (induction h arbitrary: n node p \<alpha> \<beta> d)
  case 0
  then obtain n' where n: "n = Suc n'" by (cases n) simp_all
  from 0 show ?case by (simp add: n fail_soft_refl)
next
  case (Suc h)
  then obtain n' where n: "n = Suc n'" and hn: "h < n'" by (cases n) simp_all
  show ?case
  proof (cases "is_terminal_node S (state node) \<or> Bound d = max_depth gl")
    case True
    then show ?thesis by (simp add: n fail_soft_refl)
  next
    case False
    let ?st = "state node"
    let ?other = "if p = min_player gl then max_player gl else min_player gl"
    let ?child = "\<lambda>c. \<lparr>state = generate_successor_state S ?st c, col = c, chosen_succ = None\<rparr>"
    let ?search = "\<lambda>c a b. returned_score (negascout S gl n' (?child c) ?other a b (d + 1))"
    let ?m = "\<lambda>c. negamax S gl h (generate_successor_state S ?st c) ?other (d + 1)"
    from sorted_cols_contract [OF con, of ?st gl] False
    obtain cols where cols: "sorted_cols S gl ?st = Return cols" "cols \<noteq> []"
      "set cols = set (get_possible_columns S ?st)"
      by blast
    obtain first rest where fr: "cols = first # rest" using cols(2) by (cases cols) simp_all
    have ch: "\<forall>c\<in>set cols. \<forall>a b. a < b \<longrightarrow> (\<exists>r. ?search c a b = Return r \<and> is_fin r \<and> fail_soft r (?m c) a b)"
    proof (intro ballI allI impI)
      fix c a b
      assume c: "c \<in> set cols" and ab: "a < (b::score)"
      have e: "search_ends S gl h (state (?child c)) (d + 1)"
        using search_ends_children [OF Suc.prems(1)] False c cols(3) by simp
      from Suc.IH [OF e hn ab, of ?other]
      obtain v node' where "negascout S gl n' (?child c) ?other a b (d + 1) = Return (v, node')"
        "is_fin v" "fail_soft v (?m c) a b"
        by auto
      then show "\<exists>r. ?search c a b = Return r \<and> is_fin r \<and> fail_soft r (?m c) a b"
        by simp
    qed
    have hd: "is_fin MInf \<or> (MInf = MInf \<and> (cols = [] \<or> hd cols = first))"
      using fr by simp
    from negascout_loop_sound [where search = ?search and m = ?m and cols = cols and s = MInf
        and a = \<alpha> and \<alpha> = \<alpha> and \<beta> = \<beta> and Mp = MInf and first = first
        and chosen = "chosen_succ node", OF ch Suc.prems(3) _ _ _ hd]
    obtain v c' where v: "negascout_loop ?search first cols MInf \<alpha> \<beta> (chosen_succ node) = Return (v, c')"
      "fail_soft v (max MInf (maxl (\<lambda>c. neg (?m c)) cols)) \<alpha> \<beta>" "is_fin v"
      using cols(2) by (auto simp: max_def)
    have "maxl (\<lambda>c. neg (?m c)) cols = maxl (\<lambda>c. neg (?m c)) (get_possible_columns S ?st)"
      by (rule maxl_cong_set [OF cols(3)])
    then have val: "negamax S gl (Suc h) ?st p d = max MInf (maxl (\<lambda>c. neg (?m c)) cols)"
      using False by (simp add: max_def)
    have "negascout S gl n node p \<alpha> \<beta> d = Return (v, node\<lparr>chosen_succ := c'\<rparr>)"
      using False cols(1) fr v(1) by (simp add: n Let_def)
    with v(2,3) val show ?thesis by simp
  qed
qed

lemma neg_fst_Return [simp]: "neg_fst (Return (v, x)) = Return (neg v, x)"
  by (simp add: neg_fst_def)

lemma neg_score_Return [simp]: "neg_score (Return v) = Return (neg v)"
  by (simp add: neg_score_def)

lemma minimax_ab_sound:
  assumes con: "columns_contract S" and dist: "max_player gl \<noteq> min_player gl"
  shows "search_ends S gl h (state node) d \<Longrightarrow> h < n \<Longrightarrow> \<alpha> < \<beta> \<Longrightarrow>
         \<exists>v node'. minimax_ab S gl n node p \<alpha> \<beta> d = Return (v, node') \<and> is_fin v \<and>
            fail_soft v (if p = max_player gl then negamax S gl h (state node) p d
                         else neg (negamax S gl h (state node) p d)) \<alpha> \<beta>"
proof (induction h arbitrary: n node p \<alpha> \<beta> d)
  case 0
  then obtain n' where n: "n = Suc n'" by (cases n) simp_all
  have "p \<noteq> max_player gl \<Longrightarrow> p = min_player gl" using dist by (rule player_two)
  with 0 dist show ?case by (auto simp add: n fail_soft_refl)
next
  case (Suc h)
  then obtain n' where n: "n = Suc n'" and hn: "h < n'" by (cases n) simp_all
  have pm: "p \<noteq> max_player gl \<Longrightarrow> p = min_player gl" using dist by (rule player_two)
  show ?case
  proof (cases "is_terminal_node S (state node) \<or> Bound d = max_depth gl")
    case True
    with pm dist show ?thesis by (auto simp add: n fail_soft_refl)
  next
    case False
    let ?st = "state node"
    let ?child = "\<lambda>c. \<lparr>state = generate_successor_state S ?st c, col = c, chosen_succ = None\<rparr>"
    from sorted_cols_contract [OF con, of ?st gl] False
    obtain cols where cols: "sorted_cols S gl ?st = Return cols" "cols \<noteq> []"
      "set cols = set (get_possible_columns S ?st)"
      by blast
    have ends: "\<And>c. c \<in> set cols \<Longrightarrow> search_ends S gl h (state (?child c)) (d + 1)"
      using search_ends_children [OF Suc.prems(1)] False cols(3) by simp
    show ?thesis
    proof (cases "p = max_player gl")
      case True
      let ?search = "\<lambda>c a b. returned_score (minimax_ab S gl n' (?child c) (min_player gl) a b (d + 1))"
      let ?t = "\<lambda>c. neg (negamax S gl h (generate_successor_state S ?st c) (min_player gl) (d + 1))"
      have ch: "\<forall>c\<in>set cols. \<forall>a b. a < b \<longrightarrow> (\<exists>r. ?search c a b = Return r \<and> is_fin r \<and> fail_soft r (?t c) a b)"
      proof (intro ballI allI impI)
        fix c a b
        assume c: "c \<in> set cols" and ab: "a < (b::score)"
        from Suc.IH [OF ends [OF c] hn ab, of "min_player gl"]
        obtain v node' where "minimax_ab S gl n' (?child c) (min_player gl) a b (d + 1) = Return (v, node')"
          "is_fin v" "fail_soft v (?t c) a b"
          using dist by auto
        then show "\<exists>r. ?search c a b = Return r \<and> is_fin r \<and> fail_soft r (?t c) a b"
          by simp
      qed
      from max_loop_sound [where search = ?search and t = ?t and cols = cols and s = MInf
          and a = \<alpha> and \<alpha> = \<alpha> and \<beta> = \<beta> and Mp = MInf
          and chosen = "chosen_succ node", OF ch Suc.prems(3) Suc.prems(3)]
      obtain v c' where v: "max_loop ?search cols MInf \<alpha> \<beta> (chosen_succ node) = Return (v, c')"
        "fail_soft v (max MInf (maxl ?t cols)) \<alpha> \<beta>" "is_fin v"
        using cols(2) by auto
      have "maxl ?t cols = maxl ?t (get_possible_columns S ?st)"
        by (rule maxl_cong_set [OF cols(3)])
      then have val: "negamax S gl (Suc h) ?st p d = max MInf (maxl ?t cols)"
        using False True dist by (simp add: max_def)
      have "minimax_ab S gl n node p \<alpha> \<beta> d = Return (v, node\<lparr>chosen_succ := c'\<rparr>)"
        using False True cols(1) v(1) by (simp add: n)
      with v(2,3) val True show ?thesis by simp
    next
      case F: False
      then have p: "p = min_player gl" by (rule pm)
      let ?search = "\<lambda>c a b. returned_score (minimax_ab S gl n' (?child c) (max_player gl) a b (d + 1))"
      let ?search' = "\<lambda>c a' b'. neg_score (?search c (neg b') (neg a'))"
      let ?m = "\<lambda>c. negamax S gl h (generate_successor_state S ?st c) (max_player gl) (d + 1)"
      let ?t = "\<lambda>c. neg (?m c)"
      have ch: "\<forall>c\<in>set cols. \<forall>a b. a < b \<longrightarrow> (\<exists>r. ?search' c a b = Return r \<and> is_fin r \<and> fail_soft r (?t c) a b)"
      proof (intro ballI allI impI)
        fix c a b
        assume c: "c \<in> set cols" and ab: "a < (b::score)"
        have ab': "neg b < neg a" using ab by simp
        from Suc.IH [OF ends [OF c] hn ab', of "max_player gl"]
        obtain v node' where v: "minimax_ab S gl n' (?child c) (max_player gl) (neg b) (neg a) (d + 1) = Return (v, node')"
          "is_fin v" "fail_soft v (?m c) (neg b) (neg a)"
          by auto
        have "fail_soft (neg v) (?t c) a b"
          using v(3) fail_soft_neg [of "neg v" "?t c" b a] by simp
        with v(1,2) show "\<exists>r. ?search' c a b = Return r \<and> is_fin r \<and> fail_soft r (?t c) a b"
          by simp
      qed
      have w: "neg \<beta> < neg \<alpha>" using Suc.prems(3) by simp
      from max_loop_sound [where search = ?search' and t = ?t and cols = cols and s = MInf
          and a = "neg \<beta>" and \<alpha> = "neg \<beta>" and \<beta> = "neg \<alpha>" and Mp = MInf
          and chosen = "chosen_succ node", OF ch w w]
      obtain v c' where v: "max_loop ?search' cols MInf (neg \<beta>) (neg \<alpha>) (chosen_succ node) = Return (v, c')"
        "fail_soft v (max MInf (maxl ?t cols)) (neg \<beta>) (neg \<alpha>)" "is_fin v"
        using cols(2) by auto
      have "maxl ?t cols = maxl ?t (get_possible_columns S ?st)"
        by (rule maxl_cong_set [OF cols(3)])
      then have val: "negamax S gl (Suc h) ?st p d = max MInf (maxl ?t cols)"
        using False p by (simp add: max_def)
      have ml: "min_loop ?search cols PInf \<alpha> \<beta> (chosen_succ node) = Return (neg v, c')"
        using v(1) by (simp add: min_loop_mirror)
      have r: "minimax_ab S gl n node p \<alpha> \<beta> d = Return (neg v, node\<lparr>chosen_succ := c'\<rparr>)"
        using False F cols(1) ml by (simp add: n)
      have "fail_soft (neg v) (neg (negamax S gl (Suc h) ?st p d)) \<alpha> \<beta>"
        using v(2) val fail_soft_neg [of v "negamax S gl (Suc h) ?st p d" "neg \<alpha>" "neg \<beta>"] by simp
      with r v(3) F show ?thesis by simp
    qed
  qed
qed

lemma search_ends_bounded:
  "max_depth gl = Bound D \<Longrightarrow> d \<le> D \<Longrightarrow> nat (D - d) = k \<Longrightarrow> search_ends S gl k st d"
proof (induction k arbitrary: d st)
  case 0
  then have "d = D" by simp
  with 0 show ?case by simp
next
  case (Suc k)
  show ?case
  proof (cases "d = D")
    case True
    with Suc.prems show ?thesis by simp
  next
    case False
    with Suc.prems have "d + 1 \<le> D" "nat (D - (d + 1)) = k" by auto
    then have "\<And>st'. search_ends S gl k st' (d + 1)"
      using Suc.IH Suc.prems(1) by blast
    then show ?thesis by (simp add: list_all_iff)
  qed
qed

lemma assign_globals_bounded:
  "depth \<noteq> 0 \<Longrightarrow> max_depth (assign_globals S st depth) = Bound depth"
  by (simp add: assign_globals_def Let_def)

lemma assign_globals_max_player [simp]:
  "max_player (assign_globals S st depth) = get_next_on_move S st"
  by (simp add: assign_globals_def Let_def)

lemma c4_win_masks_are_lines: "c4_win_masks = c4_lines"
  by code_simp

lemma c4_contract: "columns_contract c4"
  by (auto simp: columns_contract_def c4_def c4_status_def c4_columns_def split: if_splits)

text \<open>
  C1: for every position and every depth argument, minimax\_ab and negascout, started at
  the root with the player to move as maximizer, window (-inf, +inf) and depth 0, return
  the same value, the game value of the position. The collaborator keeps its contract
  on legal columns; the search is given a recursion budget above the depth bound or,
  when there is no effective bound, above the length of the longest line of play.
\<close>

theorem minimax_ab_negascout_same_value:
  assumes con: "columns_contract S"
    and ends: "(0 < depth \<and> h = nat depth) \<or> search_ends S (assign_globals S st depth) h st 0"
    and fuel: "h < fuel"
  shows "\<exists>v root1 root2.
           minimax_ab S (assign_globals S st depth) fuel (root_of st) (get_next_on_move S st) MInf PInf 0
             = Return (v, root1) \<and>
           negascout S (assign_globals S st depth) fuel (root_of st) (get_next_on_move S st) MInf PInf 0
             = Return (v, root2) \<and>
           v = negamax S (assign_globals S st depth) h st (get_next_on_move S st) 0"
proof -
  let ?gl = "assign_globals S st depth"
  have e: "search_ends S ?gl h (state (root_of st)) 0"
  proof (cases "0 < depth \<and> h = nat depth")
    case True
    then have "max_depth ?gl = Bound depth" by (simp add: assign_globals_bounded)
    from search_ends_bounded [OF this, of 0 h S st] True show ?thesis
      by (simp add: root_of_def)
  next
    case False
    with ends show ?thesis by (simp add: root_of_def)
  qed
  have w: "MInf < PInf" by simp
  have mp: "max_player ?gl = get_next_on_move S st" by simp
  from minimax_ab_sound [OF con assign_globals_distinct e fuel w, of "get_next_on_move S st"]
  obtain v1 r1 where 1: "minimax_ab S ?gl fuel (root_of st) (get_next_on_move S st) MInf PInf 0 = Return (v1, r1)"
    "is_fin v1" "fail_soft v1 (negamax S ?gl h (state (root_of st)) (get_next_on_move S st) 0) MInf PInf"
    using mp by auto
  from negascout_sound [OF con e fuel w, of "get_next_on_move S st"]
  obtain v2 r2 where 2: "negascout S ?gl fuel (root_of st) (get_next_on_move S st) MInf PInf 0 = Return (v2, r2)"
    "is_fin v2" "fail_soft v2 (negamax S ?gl h (state (root_of st)) (get_next_on_move S st) 0) MInf PInf"
    by auto
  have "v1 = negamax S ?gl h st (get_next_on_move S st) 0"
    using fail_soft_full [OF 1(3) 1(2)] by (simp add: root_of_def)
  moreover have "v2 = negamax S ?gl h st (get_next_on_move S st) 0"
    using fail_soft_full [OF 2(3) 2(2)] by (simp add: root_of_def)
  ultimately show ?thesis using 1(1) 2(1) by simp
qed

lemma docstring_board_minimax_ab:
  "returned_score (minimax_ab c4 (assign_globals c4 docstring_board 2) 3 (root_of docstring_board)
                     (get_next_on_move c4 docstring_board) MInf PInf 0) = Return (Fin (- 1))"
  by code_simp

lemma docstring_board_negascout:
  "returned_score (negascout c4 (assign_globals c4 docstring_board 2) 3 (root_of docstring_board)
                     (get_next_on_move c4 docstring_board) MInf PInf 0) = Return (Fin (- 1))"
  by code_simp

theorem minimax_ab_negascout_same_value_witness:
  "columns_contract c4 \<and> ((0::int) < 2 \<and> (2::nat) = nat 2) \<and> (2::nat) < 3 \<and>
   returned_score (minimax_ab c4 (assign_globals c4 docstring_board 2) 3 (root_of docstring_board)
                     (get_next_on_move c4 docstring_board) MInf PInf 0) = Return (Fin (- 1)) \<and>
   returned_score (negascout c4 (assign_globals c4 docstring_board 2) 3 (root_of docstring_board)
                     (get_next_on_move c4 docstring_board) MInf PInf 0) = Return (Fin (- 1)) \<and>
   (\<exists>v root1 root2.
      minimax_ab c4 (assign_globals c4 docstring_board 2) 3 (root_of docstring_board)
        (get_next_on_move c4 docstring_board) MInf PInf 0 = Return (v, root1) \<and>
      negascout c4 (assign_globals c4 docstring_board 2) 3 (root_of docstring_board)
        (get_next_on_move c4 docstring_board) MInf PInf 0 = Return (v, root2) \<and>
      v = negamax c4 (assign_globals c4 docstring_board 2) 2 docstring_board
            (get_next_on_move c4 docstring_board) 0)"
proof -
  have d: "(0 < (2::int) \<and> (2::nat) = nat 2)
             \<or> search_ends c4 (assign_globals c4 docstring_board 2) 2 docstring_board 0"
    by simp
  have f: "(2::nat) < 3" by simp
  from minimax_ab_negascout_same_value [OF c4_contract d f] c4_contract
    docstring_board_minimax_ab docstring_board_negascout
  show ?thesis by simp
qed

text \<open>
  The contract on legal columns cannot be dropped: on a collaborator with a position in
  progress that has no legal column, minimax\_ab returns 0 and negascout returns -inf.
\<close>

lemma same_value_needs_contract:
  "\<not> columns_contract stuck \<and>
   returned_score (minimax_ab stuck (assign_globals stuck 0 0) 5 (root_of 0) RED MInf PInf 0)
     = Return (Fin 0) \<and>
   returned_score (negascout stuck (assign_globals stuck 0 0) 5 (root_of 0) RED MInf PInf 0)
     = Return MInf"
proof -
  have "\<not> columns_contract stuck"
  proof
    assume "columns_contract stuck"
    then have "get_state_status stuck 3 = None \<longrightarrow> get_possible_columns stuck 3 \<noteq> []"
      by (simp add: columns_contract_def)
    then show False by (simp add: stuck_def)
  qed
  moreover have "returned_score (minimax_ab stuck (assign_globals stuck 0 0) 5 (root_of 0) RED MInf PInf 0)
     = Return (Fin 0)"
    by code_simp
  moreover have "returned_score (negascout stuck (assign_globals stuck 0 0) 5 (root_of 0) RED MInf PInf 0)
     = Return MInf"
    by code_simp
  ultimately show ?thesis by blast
qed

subsection \<open>The chosen column\<close>

lemma max_loop_chosen:
  assumes "\<forall>c\<in>set cols. \<forall>a b r. search c a b = Return r \<longrightarrow> is_fin r"
    and "max_loop search cols s a b ch = Return (v, ch')"
  shows "(is_fin s \<longrightarrow> is_fin v \<and> (ch' = ch \<or> (\<exists>c\<in>set cols. ch' = Some c))) \<and>
         (s = MInf \<longrightarrow> cols \<noteq> [] \<longrightarrow> is_fin v \<and> (\<exists>c\<in>set cols. ch' = Some c))"
  using assms
proof (induction cols arbitrary: s a ch)
  case Nil
  then show ?case by auto
next
  case (Cons c cols)
  from Cons.prems(2) obtain r where r: "search c a b = Return r"
    by (cases "search c a b") simp_all
  with Cons.prems(1) have fr: "is_fin r" by auto
  have rest: "\<forall>c\<in>set cols. \<forall>a b r. search c a b = Return r \<longrightarrow> is_fin r"
    using Cons.prems(1) by simp
  show ?case
  proof (cases "s < r")
    case True
    show ?thesis
    proof (cases "b \<le> r")
      case T2: True
      with True r Cons.prems(2) fr show ?thesis by auto
    next
      case False
      with True r Cons.prems(2) have "max_loop search cols r r b (Some c) = Return (v, ch')"
        by simp
      from Cons.IH [OF rest this] fr show ?thesis by auto
    qed
  next
    case False
    then have nm: "s \<noteq> MInf" using fr by (cases r) auto
    show ?thesis
    proof (cases "b \<le> a")
      case True
      with False r Cons.prems(2) nm show ?thesis by auto
    next
      case F2: False
      with False r Cons.prems(2) have "max_loop search cols s a b ch = Return (v, ch')"
        by simp
      from Cons.IH [OF rest this] nm show ?thesis by auto
    qed
  qed
qed

lemma min_loop_chosen:
  assumes "\<forall>c\<in>set cols. \<forall>a b r. search c a b = Return r \<longrightarrow> is_fin r"
    and "min_loop search cols PInf a b ch = Return (v, ch')" and "cols \<noteq> []"
  shows "is_fin v \<and> (\<exists>c\<in>set cols. ch' = Some c)"
proof -
  let ?search' = "\<lambda>c a' b'. neg_score (search c (neg b') (neg a'))"
  have f: "\<forall>c\<in>set cols. \<forall>a b r. ?search' c a b = Return r \<longrightarrow> is_fin r"
    using assms(1) by (auto simp: neg_score_def split: result.splits)
  from assms(2) obtain v' where v': "max_loop ?search' cols MInf (neg b) (neg a) ch = Return (v', ch')" "v = neg v'"
    by (auto simp: min_loop_mirror neg_fst_def split: result.splits)
  from max_loop_chosen [OF f v'(1)] assms(3) v'(2) show ?thesis by simp
qed

lemma minimax_ab_finite:
  assumes con: "columns_contract S"
  shows "minimax_ab S gl n node p a b d = Return (v, node') \<Longrightarrow>
         is_fin v \<and>
         (\<not> is_terminal_node S (state node) \<and> Bound d \<noteq> max_depth gl \<longrightarrow>
            (\<exists>c\<in>set (get_possible_columns S (state node)). chosen_succ node' = Some c))"
proof (induction n arbitrary: node p a b d v node')
  case 0
  then show ?case by simp
next
  case (Suc n)
  show ?case
  proof (cases "is_terminal_node S (state node) \<or> Bound d = max_depth gl")
    case True
    with Suc.prems show ?thesis by auto
  next
    case False
    let ?st = "state node"
    let ?child = "\<lambda>c. \<lparr>state = generate_successor_state S ?st c, col = c, chosen_succ = None\<rparr>"
    from sorted_cols_contract [OF con, of ?st gl] False
    obtain cols where cols: "sorted_cols S gl ?st = Return cols" "cols \<noteq> []"
      "set cols = set (get_possible_columns S ?st)"
      by blast
    have fin: "\<And>q. \<forall>c\<in>set cols. \<forall>a b r. returned_score (minimax_ab S gl n (?child c) q a b (d + 1)) = Return r \<longrightarrow> is_fin r"
      using Suc.IH by (auto simp: returned_score_def split: result.splits)
    show ?thesis
    proof (cases "p = max_player gl")
      case True
      let ?search = "\<lambda>c a b. returned_score (minimax_ab S gl n (?child c) (min_player gl) a b (d + 1))"
      from Suc.prems False True cols(1)
      obtain ch where ch: "max_loop ?search cols MInf a b (chosen_succ node) = Return (v, ch)"
        "node' = node\<lparr>chosen_succ := ch\<rparr>"
        by (auto simp: store_chosen_def split: result.splits)
      from max_loop_chosen [OF fin ch(1)] cols(2,3) ch(2) show ?thesis by auto
    next
      case F: False
      let ?search = "\<lambda>c a b. returned_score (minimax_ab S gl n (?child c) (max_player gl) a b (d + 1))"
      from Suc.prems False F cols(1)
      obtain ch where ch: "min_loop ?search cols PInf a b (chosen_succ node) = Return (v, ch)"
        "node' = node\<lparr>chosen_succ := ch\<rparr>"
        by (auto simp: store_chosen_def split: result.splits)
      from min_loop_chosen [OF fin ch(1) cols(2)] cols(3) ch(2) show ?thesis by auto
    qed
  qed
qed

lemma negascout_child_chosen:
  "negascout_child search first c a b ch = Return (cs, ch') \<Longrightarrow>
   (ch' = ch \<or> ch' = Some c) \<and> (c = first \<longrightarrow> ch' = Some c)"
  by (auto simp: negascout_child_def Let_def split: result.splits if_splits)

lemma negascout_loop_chosen:
  "negascout_loop search first cols s a b ch = Return (v, ch') \<Longrightarrow>
   (ch' = ch \<or> (\<exists>c\<in>set cols. ch' = Some c)) \<and>
   (cols \<noteq> [] \<and> hd cols = first \<longrightarrow> (\<exists>c\<in>set cols. ch' = Some c))"
proof (induction cols arbitrary: s a ch)
  case Nil
  then show ?case by simp
next
  case (Cons c cols)
  from Cons.prems obtain cs ch1 where c1: "negascout_child search first c a b ch = Return (cs, ch1)"
    by (cases "negascout_child search first c a b ch") auto
  note cc = negascout_child_chosen [OF c1]
  show ?case
  proof (cases "b \<le> max a (max s cs)")
    case True
    with Cons.prems c1 have "ch' = ch1" by (simp add: Let_def)
    with cc show ?thesis by auto
  next
    case False
    with Cons.prems c1
    have "negascout_loop search first cols (max s cs) (max a (max s cs)) b ch1 = Return (v, ch')"
      by (simp add: Let_def)
    from Cons.IH [OF this] cc show ?thesis by auto
  qed
qed

lemma negascout_chosen:
  assumes "negascout S gl n node p a b d = Return (v, node')"
    and "\<not> is_terminal_node S (state node)" and "Bound d \<noteq> max_depth gl"
    and "get_possible_columns S (state node) \<noteq> []"
  shows "\<exists>c\<in>set (get_possible_columns S (state node)). chosen_succ node' = Some c"
proof -
  from assms(1) obtain n' where n: "n = Suc n'" by (cases n) simp_all
  from assms(1-3) obtain cols where cols: "sorted_cols S gl (state node) = Return cols"
    by (cases "sorted_cols S gl (state node)") (simp_all add: n Let_def)
  from sorted_cols_set [OF cols] assms(4) have ne: "cols \<noteq> []" by auto
  then obtain first rest where fr: "cols = first # rest" by (cases cols) simp_all
  let ?other = "if p = min_player gl then max_player gl else min_player gl"
  let ?search = "\<lambda>c a b. returned_score (negascout S gl n'
       \<lparr>state = generate_successor_state S (state node) c, col = c, chosen_succ = None\<rparr> ?other a b (d + 1))"
  from assms(1-3) cols fr
  obtain ch where ch: "negascout_loop ?search first cols MInf a b (chosen_succ node) = Return (v, ch)"
    "node' = node\<lparr>chosen_succ := ch\<rparr>"
    by (auto simp: n Let_def store_chosen_def split: result.splits)
  from negascout_loop_chosen [OF ch(1)] fr ch(2) sorted_cols_set [OF cols] show ?thesis by auto
qed

lemma chosen_col_Return:
  "chosen_col r = Return x \<Longrightarrow> \<exists>v root. r = Return (v, root) \<and> x = chosen_succ root"
  by (auto simp: chosen_col_def split: result.splits)

text \<open>
  C7: whenever get\_chosen\_column of either agent returns on a position in progress, it
  returns one of the legal columns of that position, never None.
\<close>

theorem root_choice_is_legal_column:
  assumes con: "columns_contract S" and nt: "\<not> is_terminal_node S st"
  shows "(snd (MinimaxABAgent_get_chosen_column S fuel before st depth) = Return x \<longrightarrow>
            (\<exists>c\<in>set (get_possible_columns S st). x = Some c)) \<and>
         (snd (Negascout_get_chosen_column S fuel before st depth) = Return y \<longrightarrow>
            (\<exists>c\<in>set (get_possible_columns S st). y = Some c))"
proof -
  let ?gl = "assign_globals S st depth"
  let ?root = "\<lparr>state = st, col = - 1, chosen_succ = None\<rparr>"
  have lim: "Bound 0 \<noteq> max_depth ?gl" by (simp add: assign_globals_def Let_def)
  have ne: "get_possible_columns S st \<noteq> []"
    using con nt by (simp add: columns_contract_def is_terminal_node_def)
  have 1: "\<exists>c\<in>set (get_possible_columns S st). x = Some c"
    if "snd (MinimaxABAgent_get_chosen_column S fuel before st depth) = Return x"
  proof -
    from that have "chosen_col (minimax_ab S ?gl fuel ?root (max_player ?gl) MInf PInf 0) = Return x"
      by (simp add: MinimaxABAgent_get_chosen_column_def Let_def)
    from chosen_col_Return [OF this] obtain v root where
      r: "minimax_ab S ?gl fuel ?root (max_player ?gl) MInf PInf 0 = Return (v, root)" "x = chosen_succ root"
      by blast
    from minimax_ab_finite [OF con r(1)] nt lim r(2) show ?thesis by simp
  qed
  have 2: "\<exists>c\<in>set (get_possible_columns S st). y = Some c"
    if "snd (Negascout_get_chosen_column S fuel before st depth) = Return y"
  proof -
    from that have "chosen_col (negascout S ?gl fuel ?root (max_player ?gl) MInf PInf 0) = Return y"
      by (simp add: Negascout_get_chosen_column_def Let_def)
    from chosen_col_Return [OF this] obtain v root where
      r: "negascout S ?gl fuel ?root (max_player ?gl) MInf PInf 0 = Return (v, root)" "y = chosen_succ root"
      by blast
    from negascout_chosen [OF r(1)] nt lim ne r(2) show ?thesis by simp
  qed
  from 1 2 show ?thesis by blast
qed

theorem root_choice_is_legal_column_witness:
  "columns_contract c4 \<and> \<not> is_terminal_node c4 red_to_win \<and>
   snd (MinimaxABAgent_get_chosen_column c4 2 None red_to_win 1) = Return (Some 0) \<and>
   (\<exists>c\<in>set (get_possible_columns c4 red_to_win). Some 0 = Some c) \<and>
   snd (Negascout_get_chosen_column c4 2 None red_to_win 1) = Return (Some 0)"
proof -
  have nt: "\<not> is_terminal_node c4 red_to_win" by code_simp
  have 1: "snd (MinimaxABAgent_get_chosen_column c4 2 None red_to_win 1) = Return (Some 0)" by code_simp
  have 2: "snd (Negascout_get_chosen_column c4 2 None red_to_win 1) = Return (Some 0)" by code_simp
  from root_choice_is_legal_column [OF c4_contract nt, of 2 None 1 "Some 0" "Some 0"] 1 2 nt c4_contract
  show ?thesis by blast
qed

subsection \<open>Depth bound 1\<close>

lemma sorted_le_last: "sorted xs \<Longrightarrow> x \<in> set xs \<Longrightarrow> x \<le> last (xs::'a::linorder list)"
  by (induction xs) auto

lemma zip_map_fst: "y \<in> set (zip (map f xs) xs) \<Longrightarrow> fst y = f (snd y)"
  by (auto simp: set_zip)

lemma sorted_reverse_hd:
  assumes "c \<in> set (sorted_reverse (zip (map k xs) xs))"
  shows "k c \<le> k (hd (sorted_reverse (zip (map k xs) xs)))"
proof -
  let ?z = "zip (map k xs) xs"
  let ?ys = "sort_key fst (rev ?z)"
  from assms obtain y where y: "y \<in> set ?ys" "c = snd y"
    by (auto simp: sorted_reverse_def)
  then have ne: "?ys \<noteq> []" by (metis empty_iff list.set(1))
  have el: "\<And>y. y \<in> set ?ys \<Longrightarrow> fst y = k (snd y)"
    using zip_map_fst [of _ k xs] by simp
  have lm: "last ?ys \<in> set ?ys" using ne by (rule last_in_set)
  have "sorted (map fst ?ys)" by simp
  moreover have "fst y \<in> set (map fst ?ys)" using y(1) by simp
  ultimately have "fst y \<le> last (map fst ?ys)" by (rule sorted_le_last)
  also have "\<dots> = fst (last ?ys)" using ne by (simp add: last_map)
  also have "\<dots> = k (snd (last ?ys))" by (rule el [OF lm])
  also have "snd (last ?ys) = hd (sorted_reverse ?z)"
    using ne by (simp add: sorted_reverse_def hd_map hd_rev)
  finally show ?thesis using el [OF y(1)] y(2) by simp
qed

lemma sorted_cols_hd_best:
  assumes "sorted_cols S gl st = Return cols" and "c \<in> set cols"
  shows "node_evaluation S gl (generate_successor_state S st c)
           \<le> node_evaluation S gl (generate_successor_state S st (hd cols))"
proof -
  let ?cs = "get_possible_columns S st"
  let ?k = "\<lambda>c. the (sort_key_of S gl st c)"
  from assms(1) have all: "list_all (\<lambda>k. k \<noteq> None) (map (sort_key_of S gl st) ?cs)"
    and cols: "cols = sorted_reverse (zip (map ?k ?cs) ?cs)"
    by (auto simp: sorted_cols_def Let_def comp_def split: if_splits)
  have key: "\<And>c. c \<in> set ?cs \<Longrightarrow> fst (?k c) = node_evaluation S gl (generate_successor_state S st c)"
    using all by (auto simp: list_all_iff sort_key_of_def Let_def split: option.splits)
  have sub: "set cols = set ?cs" by (rule sorted_cols_set [OF assms(1)])
  have "cols \<noteq> []" using assms(2) by auto
  then have hd: "hd cols \<in> set ?cs" using sub by (metis hd_in_set)
  have c: "c \<in> set ?cs" using assms(2) sub by simp
  from sorted_reverse_hd [of c ?k ?cs] assms(2) cols have "?k c \<le> ?k (hd cols)" by simp
  then have "fst (?k c) \<le> fst (?k (hd cols))"
    by (cases "?k c"; cases "?k (hd cols)") auto
  with key [OF c] key [OF hd] show ?thesis by simp
qed

lemma max_loop_first_best:
  assumes "\<forall>c\<in>set cols. \<forall>a b. search c a b = Return (Fin (e c))" and "\<forall>c\<in>set cols. e c \<le> m"
  shows "max_loop search cols (Fin m) (Fin m) PInf (Some f) = Return (Fin m, Some f)"
  using assms by (induction cols) auto

lemma negascout_loop_first_best:
  assumes "\<forall>c\<in>set cols. \<forall>a b. search c a b = Return (Fin (- e c))"
    and "\<forall>c\<in>set cols. e c \<le> e first"
  shows "negascout_loop search first cols (Fin (e first)) (Fin (e first)) PInf (Some first)
           = Return (Fin (e first), Some first)"
  using assms by (induction cols) (auto simp: negascout_child_def Let_def max_def)

lemma count_tokens_range: "0 \<le> count_tokens c \<and> count_tokens c \<le> 42"
proof -
  have "card {i. i < 42 \<and> bit c i} \<le> card {i::nat. i < 42}"
    by (rule card_mono) auto
  then show ?thesis by (simp add: count_tokens_card)
qed

lemma tokens_placed_le: "tokens_placed S st p \<le> 42"
proof -
  have "card {i. i < 42 \<and> bit (get_checkers S st p) i} \<le> card {i::nat. i < 42}"
    by (rule card_mono) auto
  then show ?thesis by (simp add: tokens_placed_def)
qed

lemma lines_free_of_le: "lines_free_of S st p \<le> length (win_masks S)"
  by (simp add: lines_free_of_def)

lemma node_evaluation_won:
  "get_state_status S st = Some (Win (max_player gl)) \<Longrightarrow> 958 \<le> node_evaluation S gl st"
  using count_tokens_range [of "get_checkers S st (max_player gl)"]
  by (simp add: node_evaluation_def)

lemma node_evaluation_high:
  assumes "length (win_masks S) < 958" and "958 \<le> node_evaluation S gl st"
    and dist: "max_player gl \<noteq> min_player gl"
  shows "get_state_status S st = Some (Win (max_player gl))"
proof (rule ccontr)
  assume n: "get_state_status S st \<noteq> Some (Win (max_player gl))"
  show False
  proof (cases "get_state_status S st")
    case None
    from node_evaluation_in_progress [OF None, of gl] lines_free_of_le [of S st "min_player gl"] assms
    show False by simp
  next
    case (Some s)
    from node_evaluation_terminal [OF dist Some] have e: "node_evaluation S gl st = decisive_score S gl st s" .
    show False
    proof (cases s)
      case (Win p)
      with n Some have "p \<noteq> max_player gl" by simp
      with e Win assms(2) tokens_placed_le [of S st p] show False by (simp add: decisive_score_def)
    next
      case DRAW
      with e assms(2) show False by (simp add: decisive_score_def)
    qed
  qed
qed

text \<open>
  C6: on a position in progress where some legal column wins at once for the player to
  move, get\_chosen\_column with depth bound 1 returns, for both agents, a legal column
  whose successor position is a win for that player. The legal columns are columns of
  the board, and the collaborator supplies fewer than 958 win masks (a won position
  scores at least 958, a position in progress at most the number of masks).
\<close>

theorem immediate_win_chosen_at_depth_one:
  assumes prog: "get_state_status S st = None"
    and rng: "\<forall>c\<in>set (get_possible_columns S st). 0 \<le> c \<and> c < 7"
    and w: "w \<in> set (get_possible_columns S st)"
    and win: "get_state_status S (generate_successor_state S st w) = Some (Win (get_next_on_move S st))"
    and masks: "length (win_masks S) < 958"
  shows "\<exists>c\<in>set (get_possible_columns S st).
           get_state_status S (generate_successor_state S st c) = Some (Win (get_next_on_move S st)) \<and>
           snd (MinimaxABAgent_get_chosen_column S (Suc (Suc fuel)) before st 1) = Return (Some c) \<and>
           snd (Negascout_get_chosen_column S (Suc (Suc fuel)) before st 1) = Return (Some c)"
proof -
  let ?gl = "assign_globals S st 1"
  let ?e = "\<lambda>c. node_evaluation S ?gl (generate_successor_state S st c)"
  have mp: "max_player ?gl = get_next_on_move S st" and md: "max_depth ?gl = Bound 1"
    and dist: "max_player ?gl \<noteq> min_player ?gl"
    by (simp_all add: assign_globals_def Let_def)
  from sorted_cols_returns [OF rng] obtain cols where cols: "sorted_cols S ?gl st = Return cols"
    by blast
  have sub: "set cols = set (get_possible_columns S st)" by (rule sorted_cols_set [OF cols])
  with w obtain first rest where fr: "cols = first # rest" by (cases cols) auto
  have best: "\<forall>c\<in>set cols. ?e c \<le> ?e first"
    using sorted_cols_hd_best [OF cols] fr by simp
  have "958 \<le> ?e w" using win mp by (simp add: node_evaluation_won)
  moreover have "?e w \<le> ?e first" using best w sub by simp
  ultimately have "958 \<le> ?e first" by simp
  from node_evaluation_high [OF masks this dist] mp
  have fw: "get_state_status S (generate_successor_state S st first) = Some (Win (get_next_on_move S st))"
    by simp
  have fl: "first \<in> set (get_possible_columns S st)" using fr sub by auto
  let ?sa = "\<lambda>c a b. returned_score (minimax_ab S ?gl (Suc fuel)
       \<lparr>state = generate_successor_state S st c, col = c, chosen_succ = None\<rparr> (min_player ?gl) a b (0 + 1))"
  have sa: "\<forall>c\<in>set rest. \<forall>a b. ?sa c a b = Return (Fin (?e c))"
    using md by simp
  have "max_loop ?sa cols MInf MInf PInf None = Return (Fin (?e first), Some first)"
    using max_loop_first_best [OF sa, of "?e first" first] best fr md by simp
  then have 1: "snd (MinimaxABAgent_get_chosen_column S (Suc (Suc fuel)) before st 1) = Return (Some first)"
    using prog cols md
    by (simp add: MinimaxABAgent_get_chosen_column_def Let_def is_terminal_node_def chosen_col_def)
  let ?sn = "\<lambda>c a b. returned_score (negascout S ?gl (Suc fuel)
       \<lparr>state = generate_successor_state S st c, col = c, chosen_succ = None\<rparr>
       (if max_player ?gl = min_player ?gl then max_player ?gl else min_player ?gl) a b (0 + 1))"
  have sn: "\<forall>c\<in>set cols. \<forall>a b. ?sn c a b = Return (Fin (- ?e c))"
    using md dist by simp
  then have sn': "\<forall>c\<in>set rest. \<forall>a b. ?sn c a b = Return (Fin (- ?e c))"
    using fr by simp
  have "negascout_loop ?sn first cols MInf MInf PInf None = Return (Fin (?e first), Some first)"
    using negascout_loop_first_best [OF sn', of first] best fr sn
    by (simp add: negascout_child_def max_def)
  then have 2: "snd (Negascout_get_chosen_column S (Suc (Suc fuel)) before st 1) = Return (Some first)"
    using prog cols md fr
    by (simp add: Negascout_get_chosen_column_def Let_def is_terminal_node_def chosen_col_def)
  from fl fw 1 2 show ?thesis by blast
qed

theorem immediate_win_chosen_at_depth_one_witness:
  "get_state_status c4 red_to_win = None \<and>
   get_possible_columns c4 red_to_win = [0, 1, 2, 3, 4, 5, 6] \<and>
   get_state_status c4 (generate_successor_state c4 red_to_win 0) = Some (Win (get_next_on_move c4 red_to_win)) \<and>
   length (win_masks c4) < 958 \<and>
   (\<exists>c\<in>set (get_possible_columns c4 red_to_win).
      get_state_status c4 (generate_successor_state c4 red_to_win c)
        = Some (Win (get_next_on_move c4 red_to_win)) \<and>
      snd (MinimaxABAgent_get_chosen_column c4 (Suc (Suc 0)) None red_to_win 1) = Return (Some c) \<and>
      snd (Negascout_get_chosen_column c4 (Suc (Suc 0)) None red_to_win 1) = Return (Some c))"
proof -
  have 1: "get_state_status c4 red_to_win = None" by code_simp
  have l: "get_possible_columns c4 red_to_win = [0, 1, 2, 3, 4, 5, 6]" by code_simp
  have 2: "\<forall>c\<in>set (get_possible_columns c4 red_to_win). 0 \<le> c \<and> c < 7" by (simp add: l)
  have 3: "0 \<in> set (get_possible_columns c4 red_to_win)" by (simp add: l)
  have 4: "get_state_status c4 (generate_successor_state c4 red_to_win 0)
             = Some (Win (get_next_on_move c4 red_to_win))" by code_simp
  have 5: "length (win_masks c4) < 958" by code_simp
  from immediate_win_chosen_at_depth_one [OF 1 2 3 4 5, of 0 None] 1 l 4 5
  show ?thesis by blast
qed

subsection \<open>Depth argument 0\<close>

lemma search_ends_unbounded:
  "max_depth gl = Unbounded \<Longrightarrow> search_ends S gl h st d = game_ends S h st"
  by (induction h arbitrary: st d) simp_all

lemma negamax_unbounded:
  "max_depth gl = Unbounded \<Longrightarrow> negamax S gl h st p d = game_value S gl h st p"
  by (induction h arbitrary: st p d) simp_all

lemma max_loop_first_out_of_fuel:
  "search c a b = OutOfFuel \<Longrightarrow> max_loop search (c # cols) s a b ch = OutOfFuel"
  by simp

lemma min_loop_first_out_of_fuel:
  "search c a b = OutOfFuel \<Longrightarrow> min_loop search (c # cols) s a b ch = OutOfFuel"
  by simp

lemma negascout_loop_first_out_of_fuel:
  "search first (neg b) (neg a) = OutOfFuel \<Longrightarrow>
   negascout_loop search first (first # cols) s a b ch = OutOfFuel"
  by (simp add: negascout_child_def)

lemma returned_score_OutOfFuel [simp]: "returned_score OutOfFuel = OutOfFuel"
  by (simp add: returned_score_def)

lemma store_chosen_OutOfFuel [simp]: "store_chosen node OutOfFuel = OutOfFuel"
  by (simp add: store_chosen_def)

lemma minimax_ab_descends:
  assumes con: "columns_contract S" and u: "max_depth gl = Unbounded"
  shows "game_lasts S k (state node) \<Longrightarrow> fuel \<le> Suc k \<Longrightarrow>
         minimax_ab S gl fuel node p a b d = OutOfFuel"
proof (induction fuel arbitrary: k node p a b d)
  case 0
  show ?case by simp
next
  case (Suc fuel)
  let ?st = "state node"
  have nt: "\<not> is_terminal_node S ?st" using Suc.prems(1) by (cases k) simp_all
  from sorted_cols_contract [OF con nt, of gl]
  obtain cols where cols: "sorted_cols S gl ?st = Return cols" "cols \<noteq> []"
    "set cols = set (get_possible_columns S ?st)"
    by blast
  obtain c rest where cr: "cols = c # rest" using cols(2) by (cases cols) simp_all
  let ?child = "\<lparr>state = generate_successor_state S ?st c, col = c, chosen_succ = None\<rparr>"
  have ch: "\<And>q a' b'. minimax_ab S gl fuel ?child q a' b' (d + 1) = OutOfFuel"
  proof (cases fuel)
    case 0
    then show "\<And>q a' b'. minimax_ab S gl fuel ?child q a' b' (d + 1) = OutOfFuel" by simp
  next
    case (Suc n)
    with Suc.prems(2) obtain k' where k: "k = Suc k'" by (cases k) simp_all
    have "c \<in> set (get_possible_columns S ?st)" using cols(3) cr by auto
    with Suc.prems(1) k have "game_lasts S k' (state ?child)" by (simp add: list_all_iff)
    moreover have "fuel \<le> Suc k'" using Suc.prems(2) k by simp
    ultimately show "\<And>q a' b'. minimax_ab S gl fuel ?child q a' b' (d + 1) = OutOfFuel"
      by (rule Suc.IH)
  qed
  show ?case using nt u cols(1) cr ch by simp
qed

lemma negascout_descends:
  assumes con: "columns_contract S" and u: "max_depth gl = Unbounded"
  shows "game_lasts S k (state node) \<Longrightarrow> fuel \<le> Suc k \<Longrightarrow>
         negascout S gl fuel node p a b d = OutOfFuel"
proof (induction fuel arbitrary: k node p a b d)
  case 0
  show ?case by simp
next
  case (Suc fuel)
  let ?st = "state node"
  have nt: "\<not> is_terminal_node S ?st" using Suc.prems(1) by (cases k) simp_all
  from sorted_cols_contract [OF con nt, of gl]
  obtain cols where cols: "sorted_cols S gl ?st = Return cols" "cols \<noteq> []"
    "set cols = set (get_possible_columns S ?st)"
    by blast
  obtain c rest where cr: "cols = c # rest" using cols(2) by (cases cols) simp_all
  let ?child = "\<lparr>state = generate_successor_state S ?st c, col = c, chosen_succ = None\<rparr>"
  have ch: "\<And>q a' b'. negascout S gl fuel ?child q a' b' (d + 1) = OutOfFuel"
  proof (cases fuel)
    case 0
    then show "\<And>q a' b'. negascout S gl fuel ?child q a' b' (d + 1) = OutOfFuel" by simp
  next
    case (Suc n)
    with Suc.prems(2) obtain k' where k: "k = Suc k'" by (cases k) simp_all
    have "c \<in> set (get_possible_columns S ?st)" using cols(3) cr by auto
    with Suc.prems(1) k have "game_lasts S k' (state ?child)" by (simp add: list_all_iff)
    moreover have "fuel \<le> Suc k'" using Suc.prems(2) k by simp
    ultimately show "\<And>q a' b'. negascout S gl fuel ?child q a' b' (d + 1) = OutOfFuel"
      by (rule Suc.IH)
  qed
  show ?case using nt u cols(1) cr ch by (simp add: Let_def negascout_child_def)
qed

lemma assign_globals_zero: "max_depth (assign_globals S st 0) = Unbounded"
  by (simp add: assign_globals_def Let_def)

text \<open>
  C9: with depth argument 0 both agents set max\_depth to infinity, which no depth
  counter equals. Under the collaborator's contract on legal columns, when every line
  of play from the position ends within \<open>h\<close> plies both searches return the value of
  the game played to its end, and no call returns before the recursion is as deep as
  the nearest terminal position: from a node with no terminal position within \<open>k\<close>
  plies, \<open>k + 1\<close> nested calls are not enough for either search to return.
\<close>

theorem depth_zero_searches_to_the_end:
  assumes con: "columns_contract S"
  shows "fst (MinimaxABAgent_get_chosen_column S fuel before st 0) = Some (assign_globals S st 0) \<and>
         fst (Negascout_get_chosen_column S fuel before st 0) = Some (assign_globals S st 0) \<and>
         max_depth (assign_globals S st 0) = Unbounded \<and>
         (\<forall>d. Bound d \<noteq> max_depth (assign_globals S st 0)) \<and>
         (game_ends S h st \<and> h < fuel \<longrightarrow>
            (\<exists>root1 root2.
               minimax_ab S (assign_globals S st 0) fuel (root_of st) (get_next_on_move S st) MInf PInf 0
                 = Return (game_value S (assign_globals S st 0) h st (get_next_on_move S st), root1) \<and>
               negascout S (assign_globals S st 0) fuel (root_of st) (get_next_on_move S st) MInf PInf 0
                 = Return (game_value S (assign_globals S st 0) h st (get_next_on_move S st), root2))) \<and>
         (game_lasts S k (state node) \<and> n \<le> Suc k \<longrightarrow>
            minimax_ab S (assign_globals S st 0) n node p a b d = OutOfFuel \<and>
            negascout S (assign_globals S st 0) n node p a b d = OutOfFuel)"
proof -
  let ?gl = "assign_globals S st 0"
  let ?p = "get_next_on_move S st"
  have u: "max_depth ?gl = Unbounded" by (rule assign_globals_zero)
  then have nb: "\<forall>d. Bound d \<noteq> max_depth ?gl" by simp
  have g: "fst (MinimaxABAgent_get_chosen_column S fuel before st 0) = Some ?gl"
    "fst (Negascout_get_chosen_column S fuel before st 0) = Some ?gl"
    by (simp_all add: MinimaxABAgent_get_chosen_column_def Negascout_get_chosen_column_def Let_def)
  have B: "\<exists>root1 root2.
               minimax_ab S ?gl fuel (root_of st) ?p MInf PInf 0 = Return (game_value S ?gl h st ?p, root1) \<and>
               negascout S ?gl fuel (root_of st) ?p MInf PInf 0 = Return (game_value S ?gl h st ?p, root2)"
    if e: "game_ends S h st" and f: "h < fuel"
  proof -
    have se: "search_ends S ?gl h (state (root_of st)) 0"
      using e by (simp add: search_ends_unbounded [OF u] root_of_def)
    have w: "MInf < PInf" by simp
    have mp: "max_player ?gl = ?p" by simp
    from minimax_ab_sound [OF con assign_globals_distinct se f w, of ?p]
    obtain v1 r1 where 1: "minimax_ab S ?gl fuel (root_of st) ?p MInf PInf 0 = Return (v1, r1)"
      "is_fin v1" "fail_soft v1 (negamax S ?gl h (state (root_of st)) ?p 0) MInf PInf"
      using mp by auto
    from negascout_sound [OF con se f w, of ?p]
    obtain v2 r2 where 2: "negascout S ?gl fuel (root_of st) ?p MInf PInf 0 = Return (v2, r2)"
      "is_fin v2" "fail_soft v2 (negamax S ?gl h (state (root_of st)) ?p 0) MInf PInf"
      by auto
    have "v1 = game_value S ?gl h st ?p"
      using fail_soft_full [OF 1(3) 1(2)] by (simp add: root_of_def negamax_unbounded [OF u])
    moreover have "v2 = game_value S ?gl h st ?p"
      using fail_soft_full [OF 2(3) 2(2)] by (simp add: root_of_def negamax_unbounded [OF u])
    ultimately show ?thesis using 1(1) 2(1) by simp
  qed
  have C: "minimax_ab S ?gl n node p a b d = OutOfFuel \<and> negascout S ?gl n node p a b d = OutOfFuel"
    if "game_lasts S k (state node)" and "n \<le> Suc k"
    using minimax_ab_descends [OF con u that] negascout_descends [OF con u that] by simp
  from g u nb B C show ?thesis by blast
qed

lemma yellow_wins_late_ends: "game_ends c4 2 yellow_wins_late"
  by code_simp

lemma docstring_board_lasts: "game_lasts c4 1 (state (root_of docstring_board))"
  by code_simp

lemma yellow_wins_late_value:
  "game_value c4 (assign_globals c4 yellow_wins_late 0) 2 yellow_wins_late
     (get_next_on_move c4 yellow_wins_late) = Fin (- 979)"
  by code_simp

lemma yellow_wins_late_bounded:
  "returned_score (minimax_ab c4 (assign_globals c4 yellow_wins_late 1) 3 (root_of yellow_wins_late)
     (get_next_on_move c4 yellow_wins_late) MInf PInf 0) = Return (Fin (- 1))"
  by code_simp

theorem depth_zero_searches_to_the_end_witness:
  "columns_contract c4 \<and> game_ends c4 2 yellow_wins_late \<and> (2::nat) < 3 \<and>
   game_lasts c4 1 (state (root_of docstring_board)) \<and> (2::nat) \<le> Suc 1 \<and>
   max_depth (assign_globals c4 yellow_wins_late 0) = Unbounded \<and>
   returned_score (minimax_ab c4 (assign_globals c4 yellow_wins_late 0) 3 (root_of yellow_wins_late)
     (get_next_on_move c4 yellow_wins_late) MInf PInf 0) = Return (Fin (- 979)) \<and>
   returned_score (negascout c4 (assign_globals c4 yellow_wins_late 0) 3 (root_of yellow_wins_late)
     (get_next_on_move c4 yellow_wins_late) MInf PInf 0) = Return (Fin (- 979)) \<and>
   returned_score (minimax_ab c4 (assign_globals c4 yellow_wins_late 1) 3 (root_of yellow_wins_late)
     (get_next_on_move c4 yellow_wins_late) MInf PInf 0) = Return (Fin (- 1)) \<and>
   minimax_ab c4 (assign_globals c4 yellow_wins_late 0) 2 (root_of docstring_board) RED MInf PInf 0
     = OutOfFuel \<and>
   negascout c4 (assign_globals c4 yellow_wins_late 0) 2 (root_of docstring_board) RED MInf PInf 0
     = OutOfFuel"
proof -
  note t = depth_zero_searches_to_the_end [OF c4_contract, of 3 None yellow_wins_late 2 1
      "root_of docstring_board" 2 RED MInf PInf 0]
  have f: "(2::nat) < 3" "(2::nat) \<le> Suc 1" by simp_all
  from t yellow_wins_late_ends f(1) obtain root1 root2 where
    r: "minimax_ab c4 (assign_globals c4 yellow_wins_late 0) 3 (root_of yellow_wins_late)
          (get_next_on_move c4 yellow_wins_late) MInf PInf 0
        = Return (game_value c4 (assign_globals c4 yellow_wins_late 0) 2 yellow_wins_late
                    (get_next_on_move c4 yellow_wins_late), root1)"
       "negascout c4 (assign_globals c4 yellow_wins_late 0) 3 (root_of yellow_wins_late)
          (get_next_on_move c4 yellow_wins_late) MInf PInf 0
        = Return (game_value c4 (assign_globals c4 yellow_wins_late 0) 2 yellow_wins_late
                    (get_next_on_move c4 yellow_wins_late), root2)"
    by blast
  have v: "returned_score (minimax_ab c4 (assign_globals c4 yellow_wins_late 0) 3 (root_of yellow_wins_late)
     (get_next_on_move c4 yellow_wins_late) MInf PInf 0) = Return (Fin (- 979))"
    "returned_score (negascout c4 (assign_globals c4 yellow_wins_late 0) 3 (root_of yellow_wins_late)
     (get_next_on_move c4 yellow_wins_late) MInf PInf 0) = Return (Fin (- 979))"
    using r yellow_wins_late_value by (simp_all add: returned_score_def)
  have o: "minimax_ab c4 (assign_globals c4 yellow_wins_late 0) 2 (root_of docstring_board) RED MInf PInf 0
             = OutOfFuel"
    "negascout c4 (assign_globals c4 yellow_wins_late 0) 2 (root_of docstring_board) RED MInf PInf 0
             = OutOfFuel"
    using t docstring_board_lasts f(2) by blast+
  have u: "max_depth (assign_globals c4 yellow_wins_late 0) = Unbounded" using t by blast
  from c4_contract yellow_wins_late_ends f docstring_board_lasts u v yellow_wins_late_bounded o
  show ?thesis by blast
qed

end
